theory Spec2Isabelle
  imports Complex_Main
begin

section \<open>JavaScript values\<close>

text \<open>
  A JavaScript number is modelled as a finite value (an exact real; rounding of IEEE
  doubles and the sign of zero are outside the model) or one of the three non-finite
  values. The arithmetic below follows IEEE-754 on the non-finite values, so that every
  \<^verbatim>\<open>Number.isFinite\<close> test of the source is a branch of the model.
\<close>

datatype jsnum = Fin real | PInf | NInf | NaN

fun isFinite :: "jsnum \<Rightarrow> bool" where
  "isFinite (Fin _) = True"
| "isFinite _ = False"

definition trunc_real :: "real \<Rightarrow> real" where
  "trunc_real q = (if 0 \<le> q then of_int \<lfloor>q\<rfloor> else - of_int \<lfloor>- q\<rfloor>)"

fun js_trunc :: "jsnum \<Rightarrow> jsnum" where
  "js_trunc (Fin q) = Fin (trunc_real q)"
| "js_trunc x = x"

fun js_floor :: "jsnum \<Rightarrow> jsnum" where
  "js_floor (Fin q) = Fin (of_int \<lfloor>q\<rfloor>)"
| "js_floor x = x"

fun js_abs :: "jsnum \<Rightarrow> jsnum" where
  "js_abs (Fin q) = Fin \<bar>q\<bar>"
| "js_abs PInf = PInf"
| "js_abs NInf = PInf"
| "js_abs NaN = NaN"

fun js_neg :: "jsnum \<Rightarrow> jsnum" where
  "js_neg (Fin q) = Fin (- q)"
| "js_neg PInf = NInf"
| "js_neg NInf = PInf"
| "js_neg NaN = NaN"

fun js_add :: "jsnum \<Rightarrow> jsnum \<Rightarrow> jsnum" where
  "js_add (Fin a) (Fin b) = Fin (a + b)"
| "js_add NaN _ = NaN"
| "js_add _ NaN = NaN"
| "js_add PInf NInf = NaN"
| "js_add NInf PInf = NaN"
| "js_add PInf _ = PInf"
| "js_add _ PInf = PInf"
| "js_add NInf _ = NInf"
| "js_add _ NInf = NInf"

definition js_sub :: "jsnum \<Rightarrow> jsnum \<Rightarrow> jsnum" where
  "js_sub a b = js_add a (js_neg b)"

fun js_sign :: "jsnum \<Rightarrow> int" where
  "js_sign (Fin q) = (if q < 0 then - 1 else if q = 0 then 0 else 1)"
| "js_sign PInf = 1"
| "js_sign NInf = - 1"
| "js_sign NaN = 0"

fun js_mul :: "jsnum \<Rightarrow> jsnum \<Rightarrow> jsnum" where
  "js_mul (Fin a) (Fin b) = Fin (a * b)"
| "js_mul NaN _ = NaN"
| "js_mul _ NaN = NaN"
| "js_mul a b =
     (if js_sign a * js_sign b = 0 then NaN
      else if js_sign a * js_sign b = 1 then PInf else NInf)"

fun js_div :: "jsnum \<Rightarrow> jsnum \<Rightarrow> jsnum" where
  "js_div (Fin a) (Fin b) =
     (if b \<noteq> 0 then Fin (a / b)
      else if a = 0 then NaN else if 0 < a then PInf else NInf)"
| "js_div NaN _ = NaN"
| "js_div _ NaN = NaN"
| "js_div (Fin a) _ = Fin 0"
| "js_div a (Fin b) = (if (js_sign a = 1) = (0 \<le> b) then PInf else NInf)"
| "js_div _ _ = NaN"

fun js_less :: "jsnum \<Rightarrow> jsnum \<Rightarrow> bool" where
  "js_less (Fin a) (Fin b) = (a < b)"
| "js_less NaN _ = False"
| "js_less _ NaN = False"
| "js_less NInf NInf = False"
| "js_less NInf _ = True"
| "js_less _ NInf = False"
| "js_less PInf _ = False"
| "js_less _ PInf = True"

definition js_max :: "jsnum \<Rightarrow> jsnum \<Rightarrow> jsnum" where
  "js_max a b = (if a = NaN \<or> b = NaN then NaN else if js_less a b then b else a)"

definition js_min :: "jsnum \<Rightarrow> jsnum \<Rightarrow> jsnum" where
  "js_min a b = (if a = NaN \<or> b = NaN then NaN else if js_less b a then b else a)"

text \<open>
  \<^verbatim>\<open>WidgetValue\<close> is declared in a module that is not part of the sources at hand; the
  code tests it with \<^verbatim>\<open>typeof\<close> against string, number and boolean and compares it with
  \<^verbatim>\<open>null\<close>. A value that is \<^verbatim>\<open>undefined\<close> is \<open>None\<close> of \<open>widget_value option\<close>.
\<close>

datatype widget_value = Str string | Num jsnum | Bool bool | Null

text \<open>Strings are ASCII text; \<^verbatim>\<open>toLowerCase\<close> and \<^verbatim>\<open>trim\<close> act on ASCII.\<close>

definition lower_char :: "char \<Rightarrow> char" where
  "lower_char c =
     (case map_of (zip ''ABCDEFGHIJKLMNOPQRSTUVWXYZ'' ''abcdefghijklmnopqrstuvwxyz'') c of
        Some d \<Rightarrow> d
      | None \<Rightarrow> c)"

definition toLowerCase :: "string \<Rightarrow> string" where
  "toLowerCase s = map lower_char s"

definition js_whitespace :: "char \<Rightarrow> bool" where
  "js_whitespace c = (c \<in> set [CHR '' '', CHR 0x09, CHR 0x0A, CHR 0x0B, CHR 0x0C, CHR 0x0D])"

definition js_trim :: "string \<Rightarrow> string" where
  "js_trim s = rev (dropWhile js_whitespace (rev (dropWhile js_whitespace s)))"

definition startsWith :: "string \<Rightarrow> string \<Rightarrow> bool" where
  "startsWith s p = (take (length p) s = p)"

text \<open>Truthiness of an optional string: \<^verbatim>\<open>null\<close>, \<^verbatim>\<open>undefined\<close> and \<^verbatim>\<open>""\<close> are falsy.\<close>

fun truthy_string :: "string option \<Rightarrow> bool" where
  "truthy_string None = False"
| "truthy_string (Some s) = (s \<noteq> [])"

text \<open>Truthiness of a widget value.\<close>

fun truthy_value :: "widget_value \<Rightarrow> bool" where
  "truthy_value (Str s) = (s \<noteq> [])"
| "truthy_value (Num n) = (n \<noteq> NaN \<and> n \<noteq> Fin 0)"
| "truthy_value (Bool b) = b"
| "truthy_value Null = False"

section \<open>The schema catalog\<close>

text \<open>
  The slot and schema types come from the same missing module; their fields are the ones
  the code reads. \<^verbatim>\<open>slot.config\<close> is optional and only read through \<^verbatim>\<open>config?.field\<close>, so
  the four configuration fields are optional fields of the slot itself. The code tests
  \<^verbatim>\<open>valueType\<close> for truthiness: the empty string stands for a type that is not declared.
\<close>

record input_slot =
  name :: string
  group :: string
  valueType :: string
  options :: "string list"
  supportsWidget :: bool
  forceInput :: bool
  cfg_min :: "widget_value option"
  cfg_max :: "widget_value option"
  cfg_step :: "widget_value option"
  cfg_control_after_generate :: "widget_value option"

record output_slot =
  oname :: string
  otype :: string

record node_schema =
  displayName :: string
  inputs :: "input_slot list"
  outputs :: "output_slot list"

type_synonym node_schema_map = "string \<rightharpoonup> node_schema"

datatype widget_kind = KString | KNumber | KBoolean | KSelect

record widget_spec =
  kind :: widget_kind
  defaultValue :: "widget_value option"
  spec_options :: "string list option"

text \<open>
  What the program takes from outside its own sources: the built-ins \<^verbatim>\<open>Number(string)\<close>
  and \<^verbatim>\<open>String(number)\<close>, the function \<^verbatim>\<open>getWidgetSpec\<close> of the missing module, and the
  sequence of values that successive calls of \<^verbatim>\<open>Math.random()\<close> return.
\<close>

record env =
  js_Number :: "string \<Rightarrow> jsnum"
  js_numberToString :: "jsnum \<Rightarrow> string"
  getWidgetSpec :: "input_slot \<Rightarrow> widget_spec option"
  js_random :: "nat \<Rightarrow> real"

fun js_String :: "env \<Rightarrow> widget_value \<Rightarrow> string" where
  "js_String E (Str s) = s"
| "js_String E (Num n) = js_numberToString E n"
| "js_String E (Bool b) = (if b then ''true'' else ''false'')"
| "js_String E Null = ''null''"

section \<open>The request compiler (prompt.ts)\<close>

text \<open>
  A node: its id and the fields of its optional \<^verbatim>\<open>data\<close>, which the code only reads
  through \<^verbatim>\<open>data?.field\<close>; a node without data has no type, no widget values and no
  control values. An edge: its endpoints and handles, each of which may be null or
  undefined. A record of the source (\<^verbatim>\<open>widgetValues\<close>, the inputs of a prompt node, the
  schema catalog) is a map from its keys; properties inherited from the prototype of a
  JavaScript object are outside the model.
\<close>

record graph_node =
  node_id :: string
  nodeType :: "string option"
  widgetValues :: "string \<rightharpoonup> widget_value"
  widgetControlValues :: "string \<rightharpoonup> string"

record graph_edge =
  source :: "string option"
  target :: "string option"
  sourceHandle :: "string option"
  targetHandle :: "string option"

text \<open>
  A connection is the pair of a node id and an output index. An input value is a literal, a
  connection or an array of connections; the source tells them apart with
  \<^verbatim>\<open>Array.isArray\<close>, the length and \<^verbatim>\<open>typeof\<close>, the model by the constructor.
\<close>

type_synonym prompt_connection = "string \<times> nat"

datatype prompt_input_value =
  Lit widget_value
| Conn prompt_connection
| ConnList "prompt_connection list"

record prompt_node =
  class_type :: string
  pinputs :: "string \<rightharpoonup> prompt_input_value"

type_synonym prompt_map = "string \<rightharpoonup> prompt_node"

definition parseHandleSlotName :: "string option \<Rightarrow> string \<Rightarrow> string option" where
  "parseHandleSlotName handleId pfx =
     (case handleId of
        None \<Rightarrow> None
      | Some h \<Rightarrow>
          if \<not> startsWith h pfx then None
          else let slotName = drop (length pfx) h
               in if length slotName > 0 then Some slotName else None)"

fun resolveNumberValue :: "env \<Rightarrow> widget_value \<Rightarrow> bool \<Rightarrow> widget_value option" where
  "resolveNumberValue E (Num n) isInteger =
     (if \<not> isFinite n then None
      else Some (Num (if isInteger then js_trunc n else n)))"
| "resolveNumberValue E (Str s) isInteger =
     (if js_trim s = '''' then None
      else let parsed = js_Number E s
           in if \<not> isFinite parsed then None
              else Some (Num (if isInteger then js_trunc parsed else parsed)))"
| "resolveNumberValue E _ isInteger = None"

fun nullish_or :: "widget_value option \<Rightarrow> widget_value option \<Rightarrow> widget_value option" where
  "nullish_or None d = d"
| "nullish_or (Some Null) d = d"
| "nullish_or (Some v) d = Some v"

fun resolveBoolean :: "widget_value \<Rightarrow> widget_value option" where
  "resolveBoolean (Bool b) = Some (Bool b)"
| "resolveBoolean (Str s) =
     (if toLowerCase s = ''true'' then Some (Bool True)
      else if toLowerCase s = ''false'' then Some (Bool False)
      else None)"
| "resolveBoolean _ = None"

definition resolveWidgetValue ::
  "env \<Rightarrow> input_slot \<Rightarrow> widget_value option \<Rightarrow> widget_value option \<Rightarrow> widget_value option"
where
  "resolveWidgetValue E slot rawValue fallbackValue =
     (case nullish_or rawValue fallbackValue of
        None \<Rightarrow> None
      | Some Null \<Rightarrow> None
      | Some v \<Rightarrow>
          if length (options slot) > 0 \<or> valueType slot = ''STRING'' then Some (Str (js_String E v))
          else if valueType slot = ''BOOLEAN'' then resolveBoolean v
          else if valueType slot = ''INT'' then resolveNumberValue E v True
          else if valueType slot = ''FLOAT'' then resolveNumberValue E v False
          else Some v)"

fun isPromptConnection :: "prompt_input_value \<Rightarrow> bool" where
  "isPromptConnection (Conn c) = True"
| "isPromptConnection _ = False"

fun isPromptConnectionList :: "prompt_input_value \<Rightarrow> bool" where
  "isPromptConnectionList (ConnList cs) = (length cs > 0)"
| "isPromptConnectionList _ = False"

fun falsy_input :: "prompt_input_value option \<Rightarrow> bool" where
  "falsy_input None = True"
| "falsy_input (Some (Lit v)) = (\<not> truthy_value v)"
| "falsy_input (Some _) = False"

definition mergePromptConnection ::
  "prompt_input_value option \<Rightarrow> prompt_connection \<Rightarrow> prompt_input_value"
where
  "mergePromptConnection existing connection =
     (if falsy_input existing then Conn connection
      else case existing of
             Some (Conn e) \<Rightarrow> ConnList [e, connection]
           | Some (ConnList es) \<Rightarrow>
               if isPromptConnectionList (ConnList es) then ConnList (es @ [connection])
               else Conn connection
           | _ \<Rightarrow> Conn connection)"

text \<open>
  The state of one call of \<^verbatim>\<open>buildPromptFromGraph\<close>. The source keeps the warning
  messages in an array; the log below keeps, beside each message, the dedupe key that
  \<^verbatim>\<open>pushWarning\<close> received with it, and the result takes the messages.
\<close>

record build_state =
  prompt :: prompt_map
  warning_log :: "(string \<times> string option) list"
  nodeById :: "string \<rightharpoonup> graph_node"
  schemaWarningKeys :: "string set"

record prompt_build_result =
  result_prompt :: prompt_map
  result_errors :: "string list"
  result_warnings :: "string list"

definition pushWarning :: "build_state \<Rightarrow> string \<Rightarrow> string option \<Rightarrow> build_state" where
  "pushWarning st message dedupeKey =
     (case dedupeKey of
        None \<Rightarrow> st\<lparr>warning_log := warning_log st @ [(message, dedupeKey)]\<rparr>
      | Some k \<Rightarrow>
          if k = [] then st\<lparr>warning_log := warning_log st @ [(message, dedupeKey)]\<rparr>
          else if k \<in> schemaWarningKeys st then st
          else st\<lparr>schemaWarningKeys := insert k (schemaWarningKeys st),
                  warning_log := warning_log st @ [(message, dedupeKey)]\<rparr>)"

text \<open>The body of the loop over \<^verbatim>\<open>schema.inputs\<close> in the first phase.\<close>

definition resolve_slot ::
  "env \<Rightarrow> (string \<rightharpoonup> widget_value) \<Rightarrow> (string \<rightharpoonup> prompt_input_value) \<Rightarrow> input_slot
     \<Rightarrow> (string \<rightharpoonup> prompt_input_value)"
where
  "resolve_slot E wv inps slot =
     (if group slot = ''hidden'' then inps
      else if \<not> supportsWidget slot \<or> forceInput slot then inps
      else let rawValue = wv (name slot);
               fallbackValue =
                 (if rawValue = None
                  then (case getWidgetSpec E slot of None \<Rightarrow> None | Some ws \<Rightarrow> defaultValue ws)
                  else None);
               resolved = resolveWidgetValue E slot rawValue fallbackValue
           in case resolved of
                None \<Rightarrow> inps
              | Some v \<Rightarrow> inps(name slot \<mapsto> Lit v))"

text \<open>The copy of every stored value that is neither \<^verbatim>\<open>null\<close> nor \<^verbatim>\<open>undefined\<close>.\<close>

definition passthrough_inputs ::
  "(string \<rightharpoonup> widget_value) \<Rightarrow> (string \<rightharpoonup> prompt_input_value)"
where
  "passthrough_inputs wv =
     (\<lambda>key. case wv key of None \<Rightarrow> None | Some Null \<Rightarrow> None | Some v \<Rightarrow> Some (Lit v))"

text \<open>The body of the first loop over the nodes.\<close>

definition add_node :: "env \<Rightarrow> node_schema_map \<Rightarrow> build_state \<Rightarrow> graph_node \<Rightarrow> build_state" where
  "add_node E nodeSchemas st0 node =
     (let st = st0\<lparr>nodeById := (nodeById st0)(node_id node \<mapsto> node)\<rparr>
      in if \<not> truthy_string (nodeType node)
         then pushWarning st (''Node '' @ node_id node @ '' is missing a type.'')
                (Some (''missing-type-'' @ node_id node))
         else let ty = the (nodeType node)
              in case nodeSchemas ty of
                   Some schema \<Rightarrow>
                     st\<lparr>prompt := (prompt st)(node_id node \<mapsto>
                          \<lparr>class_type = ty,
                           pinputs = foldl (resolve_slot E (widgetValues node)) Map.empty
                                       (inputs schema)\<rparr>)\<rparr>
                 | None \<Rightarrow>
                     (pushWarning st (''Missing schema for '' @ ty @ '' ('' @ node_id node @ '').'')
                        (Some (''missing-schema-'' @ node_id node)))
                     \<lparr>prompt := (prompt st)(node_id node \<mapsto>
                          \<lparr>class_type = ty,
                           pinputs = passthrough_inputs (widgetValues node)\<rparr>)\<rparr>)"

fun findIndex :: "('a \<Rightarrow> bool) \<Rightarrow> 'a list \<Rightarrow> nat option" where
  "findIndex P [] = None"
| "findIndex P (x # xs) =
     (if P x then Some 0 else map_option Suc (findIndex P xs))"

text \<open>The body of the loop over the edges.\<close>

definition wire_edge :: "node_schema_map \<Rightarrow> build_state \<Rightarrow> graph_edge \<Rightarrow> build_state" where
  "wire_edge nodeSchemas st edge =
     (if \<not> truthy_string (source edge) \<or> \<not> truthy_string (target edge) then st
      else case parseHandleSlotName (sourceHandle edge) ''out-'' of
        None \<Rightarrow> st
      | Some sourceSlotName \<Rightarrow>
      case parseHandleSlotName (targetHandle edge) ''in-'' of
        None \<Rightarrow> st
      | Some targetSlotName \<Rightarrow>
      case nodeById st (the (source edge)) of
        None \<Rightarrow> st
      | Some sourceNode \<Rightarrow>
      case nodeById st (the (target edge)) of
        None \<Rightarrow> st
      | Some targetNode \<Rightarrow>
      if \<not> truthy_string (nodeType sourceNode) then st
      else let sourceType = the (nodeType sourceNode)
      in case nodeSchemas sourceType of
        None \<Rightarrow>
          pushWarning st
            (''Missing schema for '' @ sourceType @ '' ('' @ node_id sourceNode @ '').'')
            (Some (''missing-schema-'' @ node_id sourceNode))
      | Some sourceSchema \<Rightarrow>
      case findIndex (\<lambda>slot. oname slot = sourceSlotName) (outputs sourceSchema) of
        None \<Rightarrow>
          pushWarning st
            (''Unknown output '' @ sourceSlotName @ '' on '' @ sourceType
               @ '' ('' @ node_id sourceNode @ '').'')
            None
      | Some outputIndex \<Rightarrow>
      case prompt st (node_id targetNode) of
        None \<Rightarrow> st
      | Some targetPrompt \<Rightarrow>
          st\<lparr>prompt := (prompt st)(node_id targetNode \<mapsto>
               targetPrompt\<lparr>pinputs := (pinputs targetPrompt)(targetSlotName \<mapsto>
                  mergePromptConnection (pinputs targetPrompt targetSlotName)
                    (node_id sourceNode, outputIndex))\<rparr>)\<rparr>)"

text \<open>The third phase: the body of the loop over the slots, then over the nodes.\<close>

definition check_slot ::
  "graph_node \<Rightarrow> node_schema \<Rightarrow> prompt_node \<Rightarrow> string list \<Rightarrow> input_slot \<Rightarrow> string list"
where
  "check_slot node schema promptNode errs slot =
     (if group slot \<noteq> ''required'' then errs
      else if pinputs promptNode (name slot) = None
      then errs @ [''Missing required input '' @ name slot @ '' on '' @ displayName schema
                     @ '' ('' @ node_id node @ '').'']
      else errs)"

definition check_node ::
  "node_schema_map \<Rightarrow> prompt_map \<Rightarrow> string list \<Rightarrow> graph_node \<Rightarrow> string list"
where
  "check_node nodeSchemas pm errs node =
     (if \<not> truthy_string (nodeType node) then errs
      else case nodeSchemas (the (nodeType node)) of
        None \<Rightarrow> errs
      | Some schema \<Rightarrow>
      case pm (node_id node) of
        None \<Rightarrow> errs
      | Some promptNode \<Rightarrow> foldl (check_slot node schema promptNode) errs (inputs schema))"

definition initial_state :: build_state where
  "initial_state =
     \<lparr>prompt = Map.empty, warning_log = [], nodeById = Map.empty, schemaWarningKeys = {}\<rparr>"

definition build_nodes :: "env \<Rightarrow> node_schema_map \<Rightarrow> graph_node list \<Rightarrow> build_state" where
  "build_nodes E nodeSchemas nodes = foldl (add_node E nodeSchemas) initial_state nodes"

definition build_edges ::
  "env \<Rightarrow> node_schema_map \<Rightarrow> graph_node list \<Rightarrow> graph_edge list \<Rightarrow> build_state"
where
  "build_edges E nodeSchemas nodes edges =
     foldl (wire_edge nodeSchemas) (build_nodes E nodeSchemas nodes) edges"

definition buildPromptFromGraph ::
  "env \<Rightarrow> graph_node list \<Rightarrow> graph_edge list \<Rightarrow> node_schema_map \<Rightarrow> prompt_build_result"
where
  "buildPromptFromGraph E nodes edges nodeSchemas =
     (let st = build_edges E nodeSchemas nodes edges
      in \<lparr>result_prompt = prompt st,
          result_errors = foldl (check_node nodeSchemas (prompt st)) [] nodes,
          result_warnings = map fst (warning_log st)\<rparr>)"

section \<open>Notions used to state the properties of the compiler\<close>

text \<open>
  \<open>edge_connection\<close> names the target node, the target slot and the connection
  reference of an edge that passes every check of the edge loop; \<open>wire_edge_prompt\<close>
  below proves that \<open>wire_edge\<close> merges exactly this connection and nothing else.
\<close>

definition edge_connection ::
  "node_schema_map \<Rightarrow> build_state \<Rightarrow> graph_edge \<Rightarrow> (string \<times> string \<times> prompt_connection) option"
where
  "edge_connection nodeSchemas st edge =
     (case (source edge, target edge, parseHandleSlotName (sourceHandle edge) ''out-'',
            parseHandleSlotName (targetHandle edge) ''in-'') of
        (Some src, Some tgt, Some sourceSlotName, Some targetSlotName) \<Rightarrow>
          (case (nodeById st src, nodeById st tgt) of
             (Some sourceNode, Some targetNode) \<Rightarrow>
               (case nodeType sourceNode of
                  Some sourceType \<Rightarrow>
                    (case nodeSchemas sourceType of
                       Some sourceSchema \<Rightarrow>
                         (case findIndex (\<lambda>slot. oname slot = sourceSlotName) (outputs sourceSchema) of
                            Some outputIndex \<Rightarrow>
                              if src \<noteq> [] \<and> tgt \<noteq> [] \<and> sourceType \<noteq> []
                                 \<and> prompt st (node_id targetNode) \<noteq> None
                              then Some (node_id targetNode, targetSlotName,
                                         (node_id sourceNode, outputIndex))
                              else None
                          | None \<Rightarrow> None)
                     | None \<Rightarrow> None)
                | None \<Rightarrow> None)
           | _ \<Rightarrow> None)
      | _ \<Rightarrow> None)"

text \<open>The value stored at a slot of a node in the request, if any.\<close>

definition slot_value :: "prompt_map \<Rightarrow> string \<Rightarrow> string \<Rightarrow> prompt_input_value option" where
  "slot_value pm t k = (case pm t of None \<Rightarrow> None | Some pn \<Rightarrow> pinputs pn k)"

text \<open>The connections that the edges contribute to one slot, in the order of the edges.\<close>

definition connections_to ::
  "node_schema_map \<Rightarrow> build_state \<Rightarrow> string \<Rightarrow> string \<Rightarrow> graph_edge list \<Rightarrow> prompt_connection list"
where
  "connections_to nodeSchemas st t k edges =
     List.map_filter
       (\<lambda>e. case edge_connection nodeSchemas st e of
               Some (t', k', c) \<Rightarrow> if t' = t \<and> k' = k then Some c else None
             | None \<Rightarrow> None)
       edges"

text \<open>Merging a sequence of connections into one slot, one after the other.\<close>

definition merge_all ::
  "prompt_input_value option \<Rightarrow> prompt_connection list \<Rightarrow> prompt_input_value option"
where
  "merge_all existing cs = foldl (\<lambda>v c. Some (mergePromptConnection v c)) existing cs"

text \<open>An input map that holds literal values only.\<close>

definition literal_inputs :: "(string \<rightharpoonup> prompt_input_value) \<Rightarrow> bool" where
  "literal_inputs m = (\<forall>k. m k = None \<or> (\<exists>v. m k = Some (Lit v)))"




section \<open>The connection validator (the flow canvas)\<close>

record resolved_connection_slots =
  sourceNode :: graph_node
  targetNode :: graph_node
  sourceSchema :: node_schema
  targetSchema :: node_schema
  sourceSlot :: output_slot
  targetSlot :: input_slot

definition isTypeCompatible :: "resolved_connection_slots \<Rightarrow> bool" where
  "isTypeCompatible resolved =
     (let targetType = valueType (targetSlot resolved)
      in if targetType = [] then False
         else otype (sourceSlot resolved) = targetType)"

text \<open>The body of the loop that fills the adjacency map.\<close>

definition add_adjacency :: "(string \<rightharpoonup> string list) \<Rightarrow> graph_edge \<Rightarrow> (string \<rightharpoonup> string list)" where
  "add_adjacency adjacency edge =
     (if \<not> truthy_string (source edge) \<or> \<not> truthy_string (target edge) then adjacency
      else case adjacency (the (source edge)) of
             Some neighbors \<Rightarrow> adjacency(the (source edge) \<mapsto> neighbors @ [the (target edge)])
           | None \<Rightarrow> adjacency(the (source edge) \<mapsto> [the (target edge)]))"

definition build_adjacency :: "graph_edge list \<Rightarrow> (string \<rightharpoonup> string list)" where
  "build_adjacency edges = foldl add_adjacency Map.empty edges"

text \<open>
  The stack of the search is a list whose head is the top. The inner loop pushes every
  neighbour that has not been visited.
\<close>

definition push_unvisited :: "string list \<Rightarrow> string list \<Rightarrow> string list \<Rightarrow> string list" where
  "push_unvisited visited stack neighbors =
     foldl (\<lambda>st neighbor. if neighbor \<in> set visited then st else neighbor # st) stack neighbors"

definition edge_targets :: "graph_edge list \<Rightarrow> string set" where
  "edge_targets edges = set (List.map_filter target edges)"

text \<open>
  The \<^verbatim>\<open>while\<close> loop of \<^verbatim>\<open>createsCycle\<close>. The adjacency map is the one built from the
  edges; the function takes the edges so that the map is known to be finite.
\<close>

function cycle_search :: "graph_edge list \<Rightarrow> string \<Rightarrow> string list \<Rightarrow> string list \<Rightarrow> bool" where
  "cycle_search edges src [] visited = False"
| "cycle_search edges src (nodeId # stack) visited =
     (if nodeId = [] then cycle_search edges src stack visited
      else if nodeId = src then True
      else if nodeId \<in> set visited then cycle_search edges src stack visited
      else case build_adjacency edges nodeId of
             None \<Rightarrow> cycle_search edges src stack (nodeId # visited)
           | Some neighbors \<Rightarrow>
               cycle_search edges src (push_unvisited (nodeId # visited) stack neighbors)
                 (nodeId # visited))"
  by pat_completeness auto

text \<open>The neighbours that the adjacency map holds for a node, in the order of the edges.\<close>

definition out_neighbors :: "graph_edge list \<Rightarrow> string \<Rightarrow> string list" where
  "out_neighbors edges x =
     map (\<lambda>e. the (target e))
       (filter (\<lambda>e. truthy_string (source e) \<and> truthy_string (target e) \<and> source e = Some x) edges)"

definition createsCycle :: "graph_edge \<Rightarrow> graph_edge list \<Rightarrow> bool" where
  "createsCycle connection edges =
     (if \<not> truthy_string (source connection) \<or> \<not> truthy_string (target connection) then True
      else if source connection = target connection then True
      else cycle_search edges (the (source connection)) [the (target connection)] [])"

text \<open>
  A canvas node always carries a node type; for a node without one the schema lookup of
  the model finds nothing.
\<close>

definition schema_of :: "node_schema_map \<Rightarrow> graph_node \<Rightarrow> node_schema option" where
  "schema_of nodeSchemas node =
     (case nodeType node of None \<Rightarrow> None | Some ty \<Rightarrow> nodeSchemas ty)"

definition resolveConnectionSlots ::
  "graph_edge \<Rightarrow> graph_node list \<Rightarrow> node_schema_map \<Rightarrow> resolved_connection_slots option"
where
  "resolveConnectionSlots connection nodes nodeSchemas =
     (if \<not> truthy_string (source connection) \<or> \<not> truthy_string (target connection) then None
      else case parseHandleSlotName (sourceHandle connection) ''out-'' of
        None \<Rightarrow> None
      | Some sourceSlotName \<Rightarrow>
      case parseHandleSlotName (targetHandle connection) ''in-'' of
        None \<Rightarrow> None
      | Some targetSlotName \<Rightarrow>
      case find (\<lambda>node. Some (node_id node) = source connection) nodes of
        None \<Rightarrow> None
      | Some sNode \<Rightarrow>
      case find (\<lambda>node. Some (node_id node) = target connection) nodes of
        None \<Rightarrow> None
      | Some tNode \<Rightarrow>
      case schema_of nodeSchemas sNode of
        None \<Rightarrow> None
      | Some sSchema \<Rightarrow>
      case schema_of nodeSchemas tNode of
        None \<Rightarrow> None
      | Some tSchema \<Rightarrow>
      case find (\<lambda>slot. oname slot = sourceSlotName) (outputs sSchema) of
        None \<Rightarrow> None
      | Some sSlot \<Rightarrow>
      case find (\<lambda>slot. name slot = targetSlotName) (inputs tSchema) of
        None \<Rightarrow> None
      | Some tSlot \<Rightarrow>
          Some \<lparr>sourceNode = sNode, targetNode = tNode, sourceSchema = sSchema,
                targetSchema = tSchema, sourceSlot = sSlot, targetSlot = tSlot\<rparr>)"

definition isConnectionValid ::
  "graph_edge \<Rightarrow> graph_node list \<Rightarrow> node_schema_map \<Rightarrow> graph_edge list \<Rightarrow> bool"
where
  "isConnectionValid connection nodes nodeSchemas edges =
     (case resolveConnectionSlots connection nodes nodeSchemas of
        None \<Rightarrow> False
      | Some resolved \<Rightarrow>
          if \<not> isTypeCompatible resolved then False
          else if createsCycle connection edges then False
          else True)"

text \<open>The edges of the graph as a relation; an edge without a source or a target is none.\<close>

definition edge_rel :: "graph_edge list \<Rightarrow> (string \<times> string) set" where
  "edge_rel edges =
     {(s, t). \<exists>e \<in> set edges. source e = Some s \<and> target e = Some t \<and> s \<noteq> [] \<and> t \<noteq> []}"

section \<open>The control-field engine (control-after-generate.ts)\<close>

definition CONTROL_AFTER_GENERATE_OPTIONS :: "string list" where
  "CONTROL_AFTER_GENERATE_OPTIONS = [''fixed'', ''increment'', ''decrement'', ''randomize'']"

definition DEFAULT_CONTROL_VALUE :: string where
  "DEFAULT_CONTROL_VALUE = ''randomize''"

definition CONTROL_FALLBACK_NAMES :: "string set" where
  "CONTROL_FALLBACK_NAMES = {''seed'', ''noise_seed''}"

definition MAX_RANDOM_RANGE :: jsnum where
  "MAX_RANDOM_RANGE = Fin 1125899906842624"

datatype control_mode = Before | After

definition normalizeControlValue :: "string option \<Rightarrow> string" where
  "normalizeControlValue v =
     (case v of
        None \<Rightarrow> DEFAULT_CONTROL_VALUE
      | Some s \<Rightarrow> if s \<in> set CONTROL_AFTER_GENERATE_OPTIONS then s else DEFAULT_CONTROL_VALUE)"

definition isSupportedControlWidget :: "widget_spec \<Rightarrow> bool" where
  "isSupportedControlWidget widgetSpec = (kind widgetSpec = KNumber \<or> kind widgetSpec = KSelect)"

definition isControlAfterGenerateEnabled :: "input_slot \<Rightarrow> bool" where
  "isControlAfterGenerateEnabled slot =
     (if \<not> supportsWidget slot \<or> forceInput slot then False
      else case cfg_control_after_generate slot of
             Some (Bool True) \<Rightarrow> True
           | Some (Str s) \<Rightarrow> True
           | _ \<Rightarrow> name slot \<in> CONTROL_FALLBACK_NAMES)"

text \<open>A configuration field that is a finite number, or else the alternative.\<close>

fun finite_number_or :: "widget_value option \<Rightarrow> jsnum \<Rightarrow> jsnum" where
  "finite_number_or (Some (Num n)) d = (if isFinite n then n else d)"
| "finite_number_or _ d = d"

definition resolveNumericValue :: "env \<Rightarrow> widget_value option \<Rightarrow> jsnum \<Rightarrow> bool \<Rightarrow> jsnum" where
  "resolveNumericValue E v fallback isInteger =
     (let resolved =
        (case v of
           Some (Num n) \<Rightarrow> if isFinite n then n else fallback
         | Some (Str s) \<Rightarrow> if isFinite (js_Number E s) then js_Number E s else fallback
         | _ \<Rightarrow> fallback)
      in if isInteger then js_trunc resolved else resolved)"

definition resolveNumberBounds :: "input_slot \<Rightarrow> jsnum \<Rightarrow> jsnum \<Rightarrow> jsnum \<times> jsnum" where
  "resolveNumberBounds slot fallback step =
     (let min0 = finite_number_or (cfg_min slot) fallback;
          max0 = finite_number_or (cfg_max slot) (js_add min0 step);
          min1 = (if js_less max0 min0 then max0 else min0);
          max1 = (if js_less max0 min0 then min0 else max0);
          min2 = js_max (js_neg MAX_RANDOM_RANGE) min1;
          max2 = js_min MAX_RANDOM_RANGE max1;
          max3 = (if js_less max2 min2 then min2 else max2)
      in (min2, max3))"

definition resolveNumberStep :: "input_slot \<Rightarrow> jsnum" where
  "resolveNumberStep slot =
     (let step = finite_number_or (cfg_step slot) (Fin 1)
      in if step = Fin 0 then Fin 1 else js_abs step)"

text \<open>
  \<^verbatim>\<open>applyNumberControl\<close> and \<^verbatim>\<open>applySelectControl\<close> take the number of calls of
  \<^verbatim>\<open>Math.random()\<close> made so far and return it updated beside their result.
\<close>

definition number_default :: "widget_spec \<Rightarrow> jsnum" where
  "number_default widgetSpec = (case defaultValue widgetSpec of Some (Num n) \<Rightarrow> n | _ \<Rightarrow> Fin 0)"

definition clamp_number :: "jsnum \<Rightarrow> jsnum \<Rightarrow> jsnum \<Rightarrow> jsnum" where
  "clamp_number lo hi next0 =
     (let next1 = (if js_less next0 lo then lo else next0)
      in if js_less hi next1 then hi else next1)"

definition applyNumberControl ::
  "env \<Rightarrow> nat \<Rightarrow> string \<Rightarrow> input_slot \<Rightarrow> widget_spec \<Rightarrow> widget_value option \<Rightarrow> jsnum option \<times> nat"
where
  "applyNumberControl E k controlValue slot widgetSpec rawValue =
     (if controlValue = ''fixed'' then (None, k)
      else
        let isInteger = (valueType slot = ''INT'');
            dflt = number_default widgetSpec;
            step = resolveNumberStep slot;
            (lo, hi) = resolveNumberBounds slot dflt step;
            current = resolveNumericValue E rawValue dflt isInteger;
            (next0, k') =
              (if controlValue = ''increment'' then (js_add current step, k)
               else if controlValue = ''decrement'' then (js_sub current step, k)
               else if controlValue = ''randomize'' then
                 (let range = js_div (js_sub hi lo) step
                  in if js_less (Fin 0) range
                     then (js_add (js_mul (js_floor (js_mul (Fin (js_random E k)) range)) step) lo,
                           Suc k)
                     else (js_add (js_mul (Fin 0) step) lo, k))
               else (current, k));
            next2 = clamp_number lo hi next0
        in (Some (if isInteger then js_trunc next2 else next2), k'))"

fun indexOf :: "'a list \<Rightarrow> 'a \<Rightarrow> int" where
  "indexOf [] x = - 1"
| "indexOf (y # ys) x = (if y = x then 0 else if indexOf ys x < 0 then - 1 else indexOf ys x + 1)"

definition applySelectControl ::
  "env \<Rightarrow> nat \<Rightarrow> string \<Rightarrow> widget_spec \<Rightarrow> widget_value option \<Rightarrow> string option \<times> nat"
where
  "applySelectControl E k controlValue widgetSpec rawValue =
     (if controlValue = ''fixed'' then (None, k)
      else
        let opts = (case spec_options widgetSpec of None \<Rightarrow> [] | Some os \<Rightarrow> os)
        in if length opts = 0 then (None, k)
           else
             let fallback = (case defaultValue widgetSpec of Some (Str s) \<Rightarrow> s | _ \<Rightarrow> opts ! 0);
                 current = (case rawValue of Some (Str s) \<Rightarrow> s | _ \<Rightarrow> fallback);
                 index0 = (if indexOf opts current < 0 then 0 else indexOf opts current);
                 (index1, k') =
                   (if controlValue = ''increment'' then (index0 + 1, k)
                    else if controlValue = ''decrement'' then (index0 - 1, k)
                    else if controlValue = ''randomize''
                    then (\<lfloor>js_random E k * real (length opts)\<rfloor>, Suc k)
                    else (index0, k));
                 index2 = max 0 (min (int (length opts) - 1) index1)
             in (Some (opts ! nat index2), k'))"

text \<open>
  The state of the loop over the slots of one node: the copy of the widget values (absent
  until the first write), the set of executed controls that the caller shares with the
  engine (absent when the caller passes none), and the number of random draws.
\<close>

record slot_state =
  nextWidgetValues :: "(string \<rightharpoonup> widget_value) option"
  executed :: "string set option"
  slot_draws :: nat

definition setWidgetValue ::
  "graph_node \<Rightarrow> slot_state \<Rightarrow> string \<Rightarrow> widget_value \<Rightarrow> slot_state"
where
  "setWidgetValue node st slotName v =
     st\<lparr>nextWidgetValues :=
          Some ((case nextWidgetValues st of None \<Rightarrow> widgetValues node | Some m \<Rightarrow> m)
                  (slotName \<mapsto> v))\<rparr>"

definition controlKey :: "graph_node \<Rightarrow> input_slot \<Rightarrow> string" where
  "controlKey node slot = node_id node @ '':'' @ name slot"

text \<open>
  The body of the loop over \<^verbatim>\<open>schema.inputs\<close>. \<^verbatim>\<open>Object.is\<close> on two widget values is
  their equality in the model: a number equals itself also when it is NaN, and the model
  has one zero.
\<close>

definition control_slot ::
  "env \<Rightarrow> control_mode \<Rightarrow> graph_node \<Rightarrow> slot_state \<Rightarrow> input_slot \<Rightarrow> slot_state"
where
  "control_slot E mode node st slot =
     (if \<not> isControlAfterGenerateEnabled slot then st
      else if mode = Before \<and> executed st \<noteq> None \<and> controlKey node slot \<notin> the (executed st)
      then st\<lparr>executed := Some (insert (controlKey node slot) (the (executed st)))\<rparr>
      else case getWidgetSpec E slot of
        None \<Rightarrow> st
      | Some widgetSpec \<Rightarrow>
          if \<not> isSupportedControlWidget widgetSpec then st
          else
            let controlValue = normalizeControlValue (widgetControlValues node (name slot));
                rawValue = widgetValues node (name slot);
                (nextValue, k') =
                  (if kind widgetSpec = KNumber
                   then map_prod (map_option Num) id
                          (applyNumberControl E (slot_draws st) controlValue slot widgetSpec rawValue)
                   else if kind widgetSpec = KSelect
                   then map_prod (map_option Str) id
                          (applySelectControl E (slot_draws st) controlValue widgetSpec rawValue)
                   else (None, slot_draws st));
                st' = st\<lparr>slot_draws := k'\<rparr>
            in case nextValue of
                 None \<Rightarrow> st'
               | Some v \<Rightarrow> if Some v \<noteq> rawValue then setWidgetValue node st' (name slot) v else st')"

text \<open>
  Objects live in a store: node objects and arrays of node references, each at an address.
  A new object takes the next unused address.
\<close>

record heap =
  node_objects :: "nat \<rightharpoonup> graph_node"
  node_arrays :: "nat \<rightharpoonup> nat list"
  next_address :: nat

definition alloc_node :: "heap \<Rightarrow> graph_node \<Rightarrow> nat \<times> heap" where
  "alloc_node h node =
     (next_address h,
      h\<lparr>node_objects := (node_objects h)(next_address h \<mapsto> node),
        next_address := Suc (next_address h)\<rparr>)"

definition alloc_array :: "heap \<Rightarrow> nat list \<Rightarrow> nat \<times> heap" where
  "alloc_array h refs =
     (next_address h,
      h\<lparr>node_arrays := (node_arrays h)(next_address h \<mapsto> refs),
        next_address := Suc (next_address h)\<rparr>)"

definition array_at :: "heap \<Rightarrow> nat \<Rightarrow> nat list" where
  "array_at h a = (case node_arrays h a of None \<Rightarrow> [] | Some refs \<Rightarrow> refs)"

record engine_state =
  store :: heap
  nextNodes :: "nat option"
  executedControls :: "string set option"
  draws :: nat

text \<open>
  The callback of \<^verbatim>\<open>nodes.forEach\<close>, at one index of the array \<^verbatim>\<open>nodes\<close> and the node
  reference found there.
\<close>

definition visit_node ::
  "env \<Rightarrow> node_schema_map \<Rightarrow> control_mode \<Rightarrow> nat \<Rightarrow> engine_state \<Rightarrow> nat \<times> nat \<Rightarrow> engine_state"
where
  "visit_node E nodeSchemas mode nodes st ia =
     (case node_objects (store st) (snd ia) of
        None \<Rightarrow> st
      | Some node \<Rightarrow>
      if \<not> truthy_string (nodeType node) then st
      else case nodeSchemas (the (nodeType node)) of
        None \<Rightarrow> st
      | Some schema \<Rightarrow>
          let ls = foldl (control_slot E mode node)
                     \<lparr>nextWidgetValues = None, executed = executedControls st,
                      slot_draws = draws st\<rparr>
                     (inputs schema);
              st1 = st\<lparr>executedControls := executed ls, draws := slot_draws ls\<rparr>
          in case nextWidgetValues ls of
               None \<Rightarrow> st1
             | Some nwv \<Rightarrow>
                 let (a, h1) = alloc_node (store st1) (node\<lparr>widgetValues := nwv\<rparr>);
                     (arr, h2) = (case nextNodes st1 of
                                    Some arr \<Rightarrow> (arr, h1)
                                  | None \<Rightarrow> alloc_array h1 (array_at h1 nodes));
                     h3 = h2\<lparr>node_arrays := (node_arrays h2)(arr \<mapsto> (array_at h2 arr)[fst ia := a])\<rparr>
                 in st1\<lparr>store := h3, nextNodes := Some arr\<rparr>)"

record control_result =
  result_nodes :: nat
  didMutate :: bool
  final :: engine_state

definition applyControlAfterGenerate ::
  "env \<Rightarrow> heap \<Rightarrow> nat \<Rightarrow> node_schema_map \<Rightarrow> control_mode \<Rightarrow> string set option \<Rightarrow> nat
     \<Rightarrow> control_result"
where
  "applyControlAfterGenerate E h nodes nodeSchemas mode executedControls0 draws0 =
     (let refs = array_at h nodes;
          st = foldl (visit_node E nodeSchemas mode nodes)
                 \<lparr>store = h, nextNodes = None, executedControls = executedControls0,
                  draws = draws0\<rparr>
                 (zip [0..<length refs] refs)
      in \<lparr>result_nodes = (case nextNodes st of None \<Rightarrow> nodes | Some arr \<Rightarrow> arr),
          didMutate = (nextNodes st \<noteq> None),
          final = st\<rparr>)"

text \<open>A store in which every object lies below the next unused address.\<close>

definition heap_ok :: "heap \<Rightarrow> bool" where
  "heap_ok h = ((\<forall>a. node_objects h a \<noteq> None \<longrightarrow> a < next_address h)
                \<and> (\<forall>a. node_arrays h a \<noteq> None \<longrightarrow> a < next_address h))"

section \<open>Notions used to state the properties of the engine\<close>


text \<open>
  How a new array of node references relates to the input array: it has the same length,
  and each element is the input reference or the address of an object created since,
  which is the input node with other widget values; at least one element is new.
\<close>

definition replaced_ok :: "heap \<Rightarrow> heap \<Rightarrow> nat list \<Rightarrow> nat list \<Rightarrow> bool" where
  "replaced_ok h h' refs refs' =
     (length refs' = length refs
      \<and> (\<forall>i < length refs.
            refs' ! i = refs ! i
            \<or> (next_address h \<le> refs' ! i
                \<and> (\<exists>n n'. node_objects h (refs ! i) = Some n
                      \<and> node_objects h' (refs' ! i) = Some n'
                      \<and> n' = n\<lparr>widgetValues := widgetValues n'\<rparr>
                      \<and> widgetValues n' \<noteq> widgetValues n)))
      \<and> (\<exists>i < length refs. next_address h \<le> refs' ! i))"

text \<open>The invariant of the loop over the nodes, relative to the store at the call.\<close>

definition engine_inv :: "heap \<Rightarrow> nat \<Rightarrow> heap \<Rightarrow> nat option \<Rightarrow> bool" where
  "engine_inv h nodes h' nn =
     (heap_ok h' \<and> next_address h \<le> next_address h'
      \<and> (\<forall>a < next_address h. node_objects h' a = node_objects h a
                                 \<and> node_arrays h' a = node_arrays h a)
      \<and> (case nn of
            None \<Rightarrow> h' = h
          | Some arr \<Rightarrow>
              next_address h \<le> arr
              \<and> (\<exists>refs'. node_arrays h' arr = Some refs'
                     \<and> replaced_ok h h' (array_at h nodes) refs')))"

text \<open>The copy of the widget values, once it exists, differs from the stored values.\<close>

definition copy_differs :: "graph_node \<Rightarrow> slot_state \<Rightarrow> bool" where
  "copy_differs node st =
     (case nextWidgetValues st of None \<Rightarrow> True | Some m \<Rightarrow> m \<noteq> widgetValues node)"

text \<open>
  The store after the callback has replaced the node at index \<open>i\<close> by a copy with the
  widget values \<open>nwv\<close>: the copy takes the next address, and the new array, when it does
  not exist yet, the one after.
\<close>

definition replace_node :: "nat \<Rightarrow> heap \<Rightarrow> nat option \<Rightarrow> nat \<Rightarrow> graph_node
    \<Rightarrow> (string \<rightharpoonup> widget_value) \<Rightarrow> heap" where
  "replace_node nodes hs nn i node nwv =
     \<lparr>node_objects = (node_objects hs)(next_address hs \<mapsto> node\<lparr>widgetValues := nwv\<rparr>),
      node_arrays =
        (case nn of
           Some arr \<Rightarrow> (node_arrays hs)(arr \<mapsto> (array_at hs arr)[i := next_address hs])
         | None \<Rightarrow> (node_arrays hs)(Suc (next_address hs) \<mapsto>
                      (array_at hs nodes)[i := next_address hs])),
      next_address = (case nn of Some arr \<Rightarrow> Suc (next_address hs)
                               | None \<Rightarrow> Suc (Suc (next_address hs)))\<rparr>"

section \<open>A concrete graph\<close>

text \<open>
  Concrete instances on which the theorems are instantiated: stand-ins for the built-ins
  and for \<^verbatim>\<open>getWidgetSpec\<close>, a schema catalog with a loader and a saver node type, and a
  few nodes and edges.
\<close>

definition ex_Number :: "string \<Rightarrow> jsnum" where
  "ex_Number s = (if s = ''12.7'' then Fin (127 / 10) else if s = ''-3.5'' then Fin (- 7 / 2) else NaN)"

definition ex_numberToString :: "jsnum \<Rightarrow> string" where
  "ex_numberToString n = (if n = Fin (37 / 10) then ''3.7'' else ''0'')"

definition ex_getWidgetSpec :: "input_slot \<Rightarrow> widget_spec option" where
  "ex_getWidgetSpec slot =
     (if options slot \<noteq> []
      then Some \<lparr>kind = KSelect, defaultValue = None, spec_options = Some (options slot)\<rparr>
      else if valueType slot = ''INT'' \<or> valueType slot = ''FLOAT''
      then Some \<lparr>kind = KNumber, defaultValue = Some (Num (Fin 0)), spec_options = None\<rparr>
      else None)"

definition ex_random :: "nat \<Rightarrow> real" where
  "ex_random k = 1 / 2"

definition ex_env :: env where
  "ex_env = \<lparr>js_Number = ex_Number, js_numberToString = ex_numberToString,
             getWidgetSpec = ex_getWidgetSpec, js_random = ex_random\<rparr>"

definition plain_slot :: "string \<Rightarrow> string \<Rightarrow> string \<Rightarrow> input_slot" where
  "plain_slot nm grp ty =
     \<lparr>name = nm, group = grp, valueType = ty, options = [], supportsWidget = True,
      forceInput = False, cfg_min = None, cfg_max = None, cfg_step = None,
      cfg_control_after_generate = None\<rparr>"

definition image_slot :: input_slot where
  "image_slot = (plain_slot ''image'' ''required'' ''IMAGE'')\<lparr>supportsWidget := False\<rparr>"

definition seed_slot :: input_slot where
  "seed_slot = plain_slot ''seed'' ''required'' ''INT''"


definition ex_number_spec :: widget_spec where
  "ex_number_spec = \<lparr>kind = KNumber, defaultValue = Some (Num (Fin 0)), spec_options = None\<rparr>"

definition step2_slot :: input_slot where
  "step2_slot = (plain_slot ''seed'' ''required'' ''INT'')
     \<lparr>cfg_max := Some (Num (Fin 10)), cfg_step := Some (Num (Fin 2))\<rparr>"

definition unit_slot :: input_slot where
  "unit_slot = (plain_slot ''seed'' ''required'' ''INT'')
     \<lparr>cfg_min := Some (Num (Fin 0)), cfg_max := Some (Num (Fin 10)), cfg_step := Some (Num (Fin 1))\<rparr>"


definition ex_schemas :: node_schema_map where
  "ex_schemas =
     [''Loader'' \<mapsto> \<lparr>displayName = ''A'', inputs = [],
                        outputs = [\<lparr>oname = ''IMAGE'', otype = ''IMAGE''\<rparr>]\<rparr>,
      ''Saver'' \<mapsto> \<lparr>displayName = ''B'', inputs = [image_slot, seed_slot], outputs = []\<rparr>,
      ''Filter'' \<mapsto> \<lparr>displayName = ''F'', inputs = [image_slot],
                        outputs = [\<lparr>oname = ''IMAGE'', otype = ''IMAGE''\<rparr>]\<rparr>,
      ''Sampler'' \<mapsto> \<lparr>displayName = ''S'', inputs = [step2_slot], outputs = []\<rparr>]"

definition ex_node :: "string \<Rightarrow> string option \<Rightarrow> (string \<rightharpoonup> widget_value) \<Rightarrow> graph_node" where
  "ex_node i ty wv = \<lparr>node_id = i, nodeType = ty, widgetValues = wv, widgetControlValues = Map.empty\<rparr>"

definition ex_edge :: "string \<Rightarrow> string \<Rightarrow> string \<Rightarrow> string \<Rightarrow> graph_edge" where
  "ex_edge s sh t th = \<lparr>source = Some s, target = Some t, sourceHandle = Some sh, targetHandle = Some th\<rparr>"

definition ex_nodes :: "graph_node list" where
  "ex_nodes = [ex_node ''a'' (Some ''Loader'') Map.empty, ex_node ''a2'' (Some ''Loader'') Map.empty,
               ex_node ''b'' (Some ''Saver'') [''seed'' \<mapsto> Null],
               ex_node ''u'' (Some ''Mystery'') Map.empty, ex_node ''n'' None Map.empty]"

definition ex_edges :: "graph_edge list" where
  "ex_edges = [ex_edge ''a'' ''out-IMAGE'' ''b'' ''in-image'', ex_edge ''a2'' ''out-IMAGE'' ''b'' ''in-image'',
               ex_edge ''a'' ''out-IMAGE'' ''b'' ''in-image'']"


definition ex_canvas_nodes :: "graph_node list" where
  "ex_canvas_nodes = [ex_node ''f1'' (Some ''Filter'') Map.empty, ex_node ''f2'' (Some ''Filter'') Map.empty]"

definition ex_canvas_edges :: "graph_edge list" where
  "ex_canvas_edges = [ex_edge ''f1'' ''out-IMAGE'' ''f2'' ''in-image'']"

definition sampler_node :: graph_node where
  "sampler_node = \<lparr>node_id = ''s'', nodeType = Some ''Sampler'',
     widgetValues = [''seed'' \<mapsto> Num (Fin 5)],
     widgetControlValues = [''seed'' \<mapsto> ''increment'']\<rparr>"

definition ex_heap :: heap where
  "ex_heap = \<lparr>node_objects = [0 \<mapsto> ex_node ''a'' (Some ''Loader'') Map.empty, 1 \<mapsto> sampler_node],
              node_arrays = [2 \<mapsto> [0, 1]], next_address = 3\<rparr>"

section \<open>Properties of the request compiler\<close>





lemma resolve_slot_null:
  "wv (name slot) = Some Null \<Longrightarrow> resolve_slot E wv inps slot = inps"
  by (simp add: resolve_slot_def resolveWidgetValue_def)

lemma resolveWidgetValue_getWidgetSpec:
  "resolveWidgetValue (E\<lparr>getWidgetSpec := g\<rparr>) slot r f = resolveWidgetValue E slot r f"
proof -
  have s: "js_String (E\<lparr>getWidgetSpec := g\<rparr>) v = js_String E v" for v by (cases v) simp_all
  have n: "resolveNumberValue (E\<lparr>getWidgetSpec := g\<rparr>) v b = resolveNumberValue E v b" for v b
    by (cases v) simp_all
  show ?thesis by (simp add: resolveWidgetValue_def s n split: option.splits widget_value.splits)
qed

lemma resolve_slot_default_unused:
  "wv (name slot) \<noteq> None \<Longrightarrow>
   resolve_slot (E\<lparr>getWidgetSpec := g\<rparr>) wv inps slot = resolve_slot E wv inps slot"
  by (auto simp: resolve_slot_def Let_def resolveWidgetValue_getWidgetSpec)

lemma resolve_slot_other_key:
  "k \<noteq> name slot \<Longrightarrow> resolve_slot E wv inps slot k = inps k"
  by (simp add: resolve_slot_def Let_def split: option.splits)

lemma resolve_slots_null_key:
  "wv k = Some Null \<Longrightarrow> foldl (resolve_slot E wv) inps slots k = inps k"
proof (induction slots arbitrary: inps)
  case Nil
  then show ?case by simp
next
  case (Cons s slots)
  have "resolve_slot E wv inps s k = inps k"
  proof (cases "k = name s")
    case True
    with Cons.prems show ?thesis by (simp add: resolve_slot_null)
  next
    case False
    then show ?thesis by (rule resolve_slot_other_key)
  qed
  with Cons show ?case by simp
qed

lemma add_node_null_value:
  assumes "truthy_string (nodeType node)" and "widgetValues node k = Some Null"
  shows "\<exists>pn. prompt (add_node E nodeSchemas st node) (node_id node) = Some pn \<and> pinputs pn k = None"
  using assms
  by (auto simp: add_node_def Let_def pushWarning_def passthrough_inputs_def resolve_slots_null_key
      split: option.splits)

lemma pushWarning_prompt [simp]: "prompt (pushWarning st m k) = prompt st"
  by (simp add: pushWarning_def split: option.splits)

lemma pushWarning_nodeById [simp]: "nodeById (pushWarning st m k) = nodeById st"
  by (simp add: pushWarning_def split: option.splits)

lemma wire_edge_nodeById [simp]: "nodeById (wire_edge S st e) = nodeById st"
  by (simp add: wire_edge_def Let_def split: option.splits)

lemma wire_edge_prompt:
  "prompt (wire_edge S st e) =
     (case edge_connection S st e of
        None \<Rightarrow> prompt st
      | Some (t, k, c) \<Rightarrow>
          (prompt st)(t \<mapsto> (the (prompt st t))\<lparr>pinputs :=
             (pinputs (the (prompt st t)))(k \<mapsto> mergePromptConnection (pinputs (the (prompt st t)) k) c)\<rparr>))"
  by (cases "source edge"; cases "target edge")
     (auto simp: wire_edge_def edge_connection_def Let_def split: option.splits)

lemma wire_edge_prompt_dom: "(prompt (wire_edge S st e) t = None) = (prompt st t = None)"
  by (auto simp: wire_edge_prompt edge_connection_def split: option.splits if_splits)

lemma edge_connection_cong:
  "nodeById st' = nodeById st \<Longrightarrow> (\<forall>t. (prompt st' t = None) = (prompt st t = None)) \<Longrightarrow>
   edge_connection S st' e = edge_connection S st e"
  by (simp add: edge_connection_def split: option.splits)

lemma wire_edge_slot_value:
  "slot_value (prompt (wire_edge S st e)) t k =
     (case edge_connection S st e of
        Some (t', k', c) \<Rightarrow>
          if t' = t \<and> k' = k then Some (mergePromptConnection (slot_value (prompt st) t k) c)
          else slot_value (prompt st) t k
      | None \<Rightarrow> slot_value (prompt st) t k)"
  by (auto simp: wire_edge_prompt slot_value_def edge_connection_def split: option.splits if_splits)

lemma wire_edges_slot_value:
  "slot_value (prompt (foldl (wire_edge S) st edges)) t k =
     merge_all (slot_value (prompt st) t k) (connections_to S st t k edges)"
proof (induction edges arbitrary: st)
  case Nil
  show ?case by (simp add: merge_all_def connections_to_def List.map_filter_simps)
next
  case (Cons e edges)
  have ec: "edge_connection S (wire_edge S st e) = edge_connection S st"
    by (rule ext, rule edge_connection_cong) (simp_all add: wire_edge_prompt_dom)
  show ?case
    using Cons.IH[of "wire_edge S st e"]
    by (simp add: ec wire_edge_slot_value merge_all_def connections_to_def List.map_filter_simps
          split: option.splits)
qed

lemma merge_all_list:
  "es \<noteq> [] \<Longrightarrow> merge_all (Some (ConnList es)) cs = Some (ConnList (es @ cs))"
  by (induction cs arbitrary: es) (simp_all add: merge_all_def mergePromptConnection_def)

lemma merge_all_conn:
  "merge_all (Some (Conn e)) cs = (if cs = [] then Some (Conn e) else Some (ConnList (e # cs)))"
proof (cases cs)
  case Nil
  then show ?thesis by (simp add: merge_all_def)
next
  case (Cons c cs')
  have "merge_all (Some (Conn e)) (c # cs') = merge_all (Some (ConnList [e, c])) cs'"
    by (simp add: merge_all_def mergePromptConnection_def)
  then show ?thesis using Cons merge_all_list[of "[e, c]" cs'] by simp
qed

lemma merge_all_fresh:
  assumes "existing = None \<or> (\<exists>v. existing = Some (Lit v))"
  shows "merge_all existing cs =
     (case cs of [] \<Rightarrow> existing | [c] \<Rightarrow> Some (Conn c) | c # c' # cs' \<Rightarrow> Some (ConnList cs))"
proof (cases cs)
  case Nil
  then show ?thesis by (simp add: merge_all_def)
next
  case (Cons c cs')
  have "mergePromptConnection existing c = Conn c"
    using assms by (auto simp: mergePromptConnection_def)
  then have "merge_all existing (c # cs') = merge_all (Some (Conn c)) cs'"
    by (simp add: merge_all_def)
  then show ?thesis using Cons by (simp add: merge_all_conn split: list.splits)
qed

lemma resolve_slot_literal: "literal_inputs m \<Longrightarrow> literal_inputs (resolve_slot E wv m s)"
  by (auto simp: literal_inputs_def resolve_slot_def Let_def split: option.splits)

lemma resolve_slots_literal: "literal_inputs m \<Longrightarrow> literal_inputs (foldl (resolve_slot E wv) m ss)"
  by (induction ss arbitrary: m) (simp_all add: resolve_slot_literal)

lemma passthrough_literal: "literal_inputs (passthrough_inputs wv)"
  by (auto simp: literal_inputs_def passthrough_inputs_def split: option.splits widget_value.splits)

lemma add_node_literal:
  assumes "\<forall>t pn. prompt st t = Some pn \<longrightarrow> literal_inputs (pinputs pn)"
  shows "\<forall>t pn. prompt (add_node E S st n) t = Some pn \<longrightarrow> literal_inputs (pinputs pn)"
proof -
  have e: "literal_inputs (foldl (resolve_slot E wv) Map.empty ss)" for wv ss
    by (rule resolve_slots_literal) (simp add: literal_inputs_def)
  show ?thesis using assms
    by (auto simp: add_node_def Let_def e passthrough_literal split: option.splits if_splits)
qed

lemma add_nodes_literal:
  assumes "\<forall>t pn. prompt st t = Some pn \<longrightarrow> literal_inputs (pinputs pn)"
  shows "\<forall>t pn. prompt (foldl (add_node E S) st ns) t = Some pn \<longrightarrow> literal_inputs (pinputs pn)"
  using assms
proof (induction ns arbitrary: st)
  case Nil
  then show ?case by simp
next
  case (Cons n ns)
  show ?case using Cons.IH[OF add_node_literal[OF Cons.prems]] by simp
qed

lemma build_nodes_literal:
  "slot_value (prompt (build_nodes E S nodes)) t k = None
   \<or> (\<exists>v. slot_value (prompt (build_nodes E S nodes)) t k = Some (Lit v))"
proof -
  have "\<forall>t pn. prompt (build_nodes E S nodes) t = Some pn \<longrightarrow> literal_inputs (pinputs pn)"
    unfolding build_nodes_def by (rule add_nodes_literal) (simp add: initial_state_def)
  then show ?thesis by (auto simp: slot_value_def literal_inputs_def split: option.splits)
qed



















lemma pushWarning_key_in:
  "k \<noteq> [] \<Longrightarrow> k \<in> schemaWarningKeys (pushWarning st m (Some k))"
  by (auto simp: pushWarning_def)

















text \<open>
  C1: in the edge loop, a connection merged into a slot with no value is stored as it is;
  merged into a slot holding one connection it gives the list of the two, the old one
  first; merged into a slot holding a list of connections it is appended at the end;
  merged into a slot holding a literal it replaces the literal. Hence the value of a slot
  after the loop is determined by the connections that the edges contribute to it, taken
  in the order of the edges: the value left by the first phase when there is none, the
  connection itself when there is one, and the list of all of them otherwise.
\<close>

theorem edge_wiring_keeps_arrival_order:
  "mergePromptConnection None c = Conn c
   \<and> mergePromptConnection (Some (Conn e)) c = ConnList [e, c]
   \<and> (es \<noteq> [] \<longrightarrow> mergePromptConnection (Some (ConnList es)) c = ConnList (es @ [c]))
   \<and> mergePromptConnection (Some (Lit v)) c = Conn c
   \<and> slot_value (result_prompt (buildPromptFromGraph E nodes edges S)) t k =
       (case connections_to S (build_nodes E S nodes) t k edges of
          [] \<Rightarrow> slot_value (prompt (build_nodes E S nodes)) t k
        | [c1] \<Rightarrow> Some (Conn c1)
        | c1 # c2 # cs \<Rightarrow> Some (ConnList (c1 # c2 # cs)))"
proof -
  have m: "mergePromptConnection None c = Conn c"
    "mergePromptConnection (Some (Conn e)) c = ConnList [e, c]"
    "es \<noteq> [] \<longrightarrow> mergePromptConnection (Some (ConnList es)) c = ConnList (es @ [c])"
    "mergePromptConnection (Some (Lit v)) c = Conn c"
    by (simp_all add: mergePromptConnection_def)
  let ?st = "build_nodes E S nodes"
  have "slot_value (result_prompt (buildPromptFromGraph E nodes edges S)) t k =
      merge_all (slot_value (prompt ?st) t k) (connections_to S ?st t k edges)"
    by (simp add: buildPromptFromGraph_def Let_def build_edges_def wire_edges_slot_value)
  also have "\<dots> = (case connections_to S ?st t k edges of
          [] \<Rightarrow> slot_value (prompt ?st) t k
        | [c1] \<Rightarrow> Some (Conn c1)
        | c1 # c2 # cs \<Rightarrow> Some (ConnList (connections_to S ?st t k edges)))"
    using build_nodes_literal[of E S nodes t k] by (intro merge_all_fresh) auto
  finally show ?thesis using m by (simp split: list.splits)
qed

theorem edge_wiring_keeps_arrival_order_witness:
  "[(''a'', 0 :: nat)] \<noteq> []
   \<and> mergePromptConnection (Some (ConnList [(''a'', 0)])) (''a2'', 0) = ConnList [(''a'', 0), (''a2'', 0)]
   \<and> connections_to ex_schemas (build_nodes ex_env ex_schemas ex_nodes) ''b'' ''image'' ex_edges
        = [(''a'', 0), (''a2'', 0), (''a'', 0)]
   \<and> slot_value (result_prompt (buildPromptFromGraph ex_env ex_nodes ex_edges ex_schemas))
        ''b'' ''image'' = Some (ConnList [(''a'', 0), (''a2'', 0), (''a'', 0)])"
proof -
  have c: "connections_to ex_schemas (build_nodes ex_env ex_schemas ex_nodes) ''b'' ''image'' ex_edges
        = [(''a'', 0), (''a2'', 0), (''a'', 0)]"
    by code_simp
  show ?thesis
    using edge_wiring_keeps_arrival_order
      [of "(''a2'', 0)" "(''a'', 0)" "[(''a'', 0)]" Null ex_env ex_nodes ex_edges ex_schemas "''b''" "''image''"]
    by (simp add: c)
qed









text \<open>
  C10: in the first phase, a slot whose stored value is null is skipped: nothing is
  written for it, so the input map compiled for the node has no entry under that name;
  and whenever the stored value is not undefined the result does not depend on
  \<^verbatim>\<open>getWidgetSpec\<close>, the only source of the declared default. When the stored value is
  undefined, the declared default is the fallback that is resolved.
\<close>

theorem null_widget_value_is_unresolved:
  "(wv (name slot) = Some Null \<longrightarrow> resolve_slot E wv inps slot = inps)
   \<and> (wv (name slot) \<noteq> None \<longrightarrow>
        resolve_slot (E\<lparr>getWidgetSpec := g\<rparr>) wv inps slot = resolve_slot E wv inps slot)
   \<and> (wv (name slot) = None \<and> group slot \<noteq> ''hidden'' \<and> supportsWidget slot \<and> \<not> forceInput slot \<longrightarrow>
        resolve_slot E wv inps slot =
          (case resolveWidgetValue E slot None
                  (case getWidgetSpec E slot of None \<Rightarrow> None | Some ws \<Rightarrow> defaultValue ws) of
             None \<Rightarrow> inps
           | Some v \<Rightarrow> inps(name slot \<mapsto> Lit v)))
   \<and> (truthy_string (nodeType node) \<and> widgetValues node k = Some Null \<longrightarrow>
        (\<exists>pn. prompt (add_node E S st node) (node_id node) = Some pn \<and> pinputs pn k = None))"
proof -
  have 1: "wv (name slot) = Some Null \<longrightarrow> resolve_slot E wv inps slot = inps"
    by (simp add: resolve_slot_null)
  have 2: "wv (name slot) \<noteq> None \<longrightarrow>
        resolve_slot (E\<lparr>getWidgetSpec := g\<rparr>) wv inps slot = resolve_slot E wv inps slot"
    by (intro impI, rule resolve_slot_default_unused)
  have 3: "wv (name slot) = None \<and> group slot \<noteq> ''hidden'' \<and> supportsWidget slot \<and> \<not> forceInput slot \<longrightarrow>
        resolve_slot E wv inps slot =
          (case resolveWidgetValue E slot None
                  (case getWidgetSpec E slot of None \<Rightarrow> None | Some ws \<Rightarrow> defaultValue ws) of
             None \<Rightarrow> inps
           | Some v \<Rightarrow> inps(name slot \<mapsto> Lit v))"
    by (simp add: resolve_slot_def)
  have 4: "truthy_string (nodeType node) \<and> widgetValues node k = Some Null \<longrightarrow>
        (\<exists>pn. prompt (add_node E S st node) (node_id node) = Some pn \<and> pinputs pn k = None)"
    by (intro impI, elim conjE, rule add_node_null_value)
  show ?thesis by (intro conjI 1 2 3 4)
qed

theorem null_widget_value_is_unresolved_witness:
  "[''seed'' \<mapsto> Null] (name seed_slot) = Some Null
   \<and> resolve_slot ex_env [''seed'' \<mapsto> Null] Map.empty seed_slot = Map.empty
   \<and> resolve_slot ex_env Map.empty Map.empty seed_slot = [''seed'' \<mapsto> Lit (Num (Fin 0))]
   \<and> truthy_string (nodeType (ex_node ''b'' (Some ''Saver'') [''seed'' \<mapsto> Null]))
   \<and> widgetValues (ex_node ''b'' (Some ''Saver'') [''seed'' \<mapsto> Null]) ''seed'' = Some Null
   \<and> (\<exists>pn. prompt (add_node ex_env ex_schemas initial_state
                    (ex_node ''b'' (Some ''Saver'') [''seed'' \<mapsto> Null])) ''b'' = Some pn
          \<and> pinputs pn ''seed'' = None)"
proof -
  have h: "[''seed'' \<mapsto> Null] (name seed_slot) = Some Null"
    "truthy_string (nodeType (ex_node ''b'' (Some ''Saver'') [''seed'' \<mapsto> Null]))"
    "widgetValues (ex_node ''b'' (Some ''Saver'') [''seed'' \<mapsto> Null]) ''seed'' = Some Null"
    "node_id (ex_node ''b'' (Some ''Saver'') [''seed'' \<mapsto> Null]) = ''b''"
    by (simp_all add: seed_slot_def plain_slot_def ex_node_def)
  have d: "resolve_slot ex_env Map.empty Map.empty seed_slot = [''seed'' \<mapsto> Lit (Num (Fin 0))]"
    by (simp add: resolve_slot_def seed_slot_def plain_slot_def ex_env_def ex_getWidgetSpec_def
          resolveWidgetValue_def trunc_real_def)
  note T = null_widget_value_is_unresolved
      [of "[''seed'' \<mapsto> Null]" seed_slot ex_env Map.empty ex_getWidgetSpec
          "ex_node ''b'' (Some ''Saver'') [''seed'' \<mapsto> Null]" "''seed''" ex_schemas initial_state]
  have a: "resolve_slot ex_env [''seed'' \<mapsto> Null] Map.empty seed_slot = Map.empty"
    using T[THEN conjunct1] h(1) by simp
  have b: "\<exists>pn. prompt (add_node ex_env ex_schemas initial_state
                    (ex_node ''b'' (Some ''Saver'') [''seed'' \<mapsto> Null])) ''b'' = Some pn
          \<and> pinputs pn ''seed'' = None"
    using T[THEN conjunct2, THEN conjunct2, THEN conjunct2] h(2) h(3) h(4) by simp
  show ?thesis by (intro conjI h(1) a d h(2) h(3) b)
qed

section \<open>Properties of the connection validator\<close>

lemma add_adjacency_other:
  "source e \<noteq> Some x \<Longrightarrow> add_adjacency adj e x = adj x"
  by (cases "source e") (auto simp: add_adjacency_def split: option.splits)

lemma foldl_add_adjacency:
  "foldl add_adjacency adj edges x =
     (case adj x of
        None \<Rightarrow> if out_neighbors edges x = [] then None else Some (out_neighbors edges x)
      | Some ns \<Rightarrow> Some (ns @ out_neighbors edges x))"
proof (induction edges arbitrary: adj)
  case Nil
  show ?case by (simp add: out_neighbors_def split: option.splits)
next
  case (Cons e edges)
  show ?case
  proof (cases "truthy_string (source e) \<and> truthy_string (target e) \<and> source e = Some x")
    case True
    then have a: "add_adjacency adj e x =
        Some ((case adj x of None \<Rightarrow> [] | Some ns \<Rightarrow> ns) @ [the (target e)])"
      by (auto simp: add_adjacency_def split: option.splits)
    have on: "out_neighbors (e # edges) x = the (target e) # out_neighbors edges x"
      using True by (auto simp: out_neighbors_def)
    show ?thesis
      by (simp add: Cons.IH a on split: option.splits)
  next
    case False
    then have a: "add_adjacency adj e x = adj x"
      by (cases "source e") (auto simp: add_adjacency_def split: option.splits)
    have on: "out_neighbors (e # edges) x = out_neighbors edges x"
      using False by (simp add: out_neighbors_def)
    show ?thesis
      by (simp add: Cons.IH a on split: option.splits)
  qed
qed

lemma build_adjacency_eq:
  "build_adjacency edges x =
     (if out_neighbors edges x = [] then None else Some (out_neighbors edges x))"
  by (simp add: build_adjacency_def foldl_add_adjacency)

lemma out_neighbors_targets: "set (out_neighbors edges x) \<subseteq> edge_targets edges"
proof
  fix t assume "t \<in> set (out_neighbors edges x)"
  then obtain e where e: "e \<in> set edges" "truthy_string (target e)" "t = the (target e)"
    by (auto simp: out_neighbors_def)
  then have "target e = Some t" by (cases "target e") simp_all
  with e(1) show "t \<in> edge_targets edges"
    by (force simp: edge_targets_def List.map_filter_def)
qed

lemma push_unvisited_set:
  "set (push_unvisited visited stack neighbors) = set stack \<union> (set neighbors - set visited)"
  unfolding push_unvisited_def
  by (induction neighbors arbitrary: stack) auto

lemma search_measure_le:
  assumes "set stack' \<subseteq> set stack \<union> edge_targets edges" and "set visited \<subseteq> set visited'"
  shows "card ((set stack' \<union> edge_targets edges) - set visited')
           \<le> card ((set stack \<union> edge_targets edges) - set visited)"
proof (rule card_mono)
  show "finite ((set stack \<union> edge_targets edges) - set visited)"
    by (simp add: edge_targets_def)
  show "(set stack' \<union> edge_targets edges) - set visited'
          \<subseteq> (set stack \<union> edge_targets edges) - set visited"
    using assms by auto
qed

lemma search_measure_less:
  assumes "set stack' \<subseteq> set stack \<union> edge_targets edges" and "nodeId \<notin> set visited"
  shows "card ((set stack' \<union> edge_targets edges) - set (nodeId # visited))
           < card ((set (nodeId # stack) \<union> edge_targets edges) - set visited)"
proof (rule psubset_card_mono)
  show "finite ((set (nodeId # stack) \<union> edge_targets edges) - set visited)"
    by (simp add: edge_targets_def)
  show "(set stack' \<union> edge_targets edges) - set (nodeId # visited)
          \<subset> (set (nodeId # stack) \<union> edge_targets edges) - set visited"
    using assms by auto
qed

termination cycle_search
proof (relation "measures [\<lambda>(edges, src, stack, visited).
                              card ((set stack \<union> edge_targets edges) - set visited),
                            \<lambda>(edges, src, stack, visited). length stack]", goal_cases)
  case 1
  show ?case by simp
next
  case (2 edges src nodeId stack visited)
  have "card ((set stack \<union> edge_targets edges) - set visited)
          \<le> card ((set (nodeId # stack) \<union> edge_targets edges) - set visited)"
    by (rule search_measure_le) auto
  then show ?case by auto
next
  case (3 edges src nodeId stack visited)
  have "card ((set stack \<union> edge_targets edges) - set visited)
          \<le> card ((set (nodeId # stack) \<union> edge_targets edges) - set visited)"
    by (rule search_measure_le) auto
  then show ?case by auto
next
  case (4 edges src nodeId stack visited)
  have "card ((set stack \<union> edge_targets edges) - set (nodeId # visited))
          < card ((set (nodeId # stack) \<union> edge_targets edges) - set visited)"
    using 4 by (intro search_measure_less) auto
  then show ?case by simp
next
  case (5 edges src nodeId stack visited neighbors)
  have "set neighbors \<subseteq> edge_targets edges"
    using 5 out_neighbors_targets[of edges nodeId]
    by (simp add: build_adjacency_eq split: if_splits)
  then have "set (push_unvisited (nodeId # visited) stack neighbors) \<subseteq> set stack \<union> edge_targets edges"
    by (auto simp: push_unvisited_set)
  then have "card ((set (push_unvisited (nodeId # visited) stack neighbors) \<union> edge_targets edges)
                 - set (nodeId # visited))
          < card ((set (nodeId # stack) \<union> edge_targets edges) - set visited)"
    using 5 by (intro search_measure_less) auto
  then show ?case by simp
qed

lemma out_neighbors_rel: "set (out_neighbors edges x) = {t. (x, t) \<in> edge_rel edges}"
proof -
  have "t \<in> set (out_neighbors edges x) \<longleftrightarrow> (x, t) \<in> edge_rel edges" for t
  proof
    assume "t \<in> set (out_neighbors edges x)"
    then obtain e where e: "e \<in> set edges" "truthy_string (source e)" "truthy_string (target e)"
        "source e = Some x" "t = the (target e)"
      by (auto simp: out_neighbors_def)
    have x: "x \<noteq> []" using e(2) e(4) by simp
    have t: "target e = Some t \<and> t \<noteq> []" using e(3) e(5) by (cases "target e") simp_all
    show "(x, t) \<in> edge_rel edges"
      unfolding edge_rel_def using e(1) e(4) x t by blast
  next
    assume "(x, t) \<in> edge_rel edges"
    then obtain e where "e \<in> set edges" "source e = Some x" "target e = Some t" "x \<noteq> []" "t \<noteq> []"
      by (auto simp: edge_rel_def)
    then show "t \<in> set (out_neighbors edges x)"
      by (force simp: out_neighbors_def)
  qed
  then show ?thesis by blast
qed

lemma edge_rel_nonempty: "(s, t) \<in> edge_rel edges \<Longrightarrow> s \<noteq> [] \<and> t \<noteq> []"
  by (auto simp: edge_rel_def)

lemma empty_id_reaches_nothing:
  assumes "([], y) \<in> (edge_rel edges)\<^sup>*"
  shows "y = []"
  using assms
  by (induction rule: rtrancl_induct) (auto dest: edge_rel_nonempty)

lemma closed_set_reaches_inside:
  assumes "(x, y) \<in> R\<^sup>*" and "x \<in> V" and "\<forall>v \<in> V. \<forall>w. (v, w) \<in> R \<longrightarrow> w \<in> V"
  shows "y \<in> V"
  using assms by (induction rule: rtrancl_induct) auto

lemma cycle_search_sound:
  "cycle_search edges src stack visited \<Longrightarrow> \<exists>x \<in> set stack. (x, src) \<in> (edge_rel edges)\<^sup>*"
proof (induction edges src stack visited rule: cycle_search.induct)
  case (1 edges src visited)
  then show ?case by simp
next
  case (2 edges src nodeId stack visited)
  show ?case
  proof (cases "nodeId = [] \<or> nodeId \<in> set visited \<and> nodeId \<noteq> src")
    case True
    then have "cycle_search edges src stack visited" using "2.prems" by (auto split: if_splits)
    then have "\<exists>x \<in> set stack. (x, src) \<in> (edge_rel edges)\<^sup>*"
      using True "2.IH"(1) "2.IH"(2) by blast
    then show ?thesis by auto
  next
    case False
    show ?thesis
    proof (cases "nodeId = src")
      case True
      then show ?thesis by auto
    next
      case ns: False
      have nv: "nodeId \<noteq> []" "nodeId \<notin> set visited" using False ns by auto
      show ?thesis
      proof (cases "build_adjacency edges nodeId")
        case None
        then have "cycle_search edges src stack (nodeId # visited)"
          using "2.prems" nv ns by simp
        then have "\<exists>x \<in> set stack. (x, src) \<in> (edge_rel edges)\<^sup>*"
          using "2.IH"(3)[OF nv(1) ns nv(2) None] by blast
        then show ?thesis by auto
      next
        case (Some neighbors)
        then have "cycle_search edges src (push_unvisited (nodeId # visited) stack neighbors)
                     (nodeId # visited)"
          using "2.prems" nv ns by simp
        then obtain x where x: "x \<in> set (push_unvisited (nodeId # visited) stack neighbors)"
            "(x, src) \<in> (edge_rel edges)\<^sup>*"
          using "2.IH"(4)[OF nv(1) ns nv(2) Some] by blast
        have nb: "set neighbors = {t. (nodeId, t) \<in> edge_rel edges}"
          using Some out_neighbors_rel[of edges nodeId]
          by (simp add: build_adjacency_eq split: if_splits)
        show ?thesis
        proof (cases "x \<in> set stack")
          case True
          with x(2) show ?thesis by auto
        next
          case False
          then have "(nodeId, x) \<in> edge_rel edges"
            using x(1) nb by (auto simp: push_unvisited_set)
          then have "(nodeId, src) \<in> (edge_rel edges)\<^sup>*"
            using x(2) by (rule converse_rtrancl_into_rtrancl)
          then show ?thesis by auto
        qed
      qed
    qed
  qed
qed

lemma cycle_search_complete:
  assumes "\<not> cycle_search edges src stack visited" and "src \<noteq> []" and "src \<notin> set visited"
    and "\<forall>v \<in> set visited. \<forall>w. (v, w) \<in> edge_rel edges \<longrightarrow> w \<in> set visited \<union> set stack"
  shows "\<forall>x \<in> set stack \<union> set visited. (x, src) \<notin> (edge_rel edges)\<^sup>*"
  using assms
proof (induction edges src stack visited rule: cycle_search.induct)
  case (1 edges src visited)
  show ?case
  proof
    fix x assume "x \<in> set [] \<union> set visited"
    then have xv: "x \<in> set visited" by simp
    show "(x, src) \<notin> (edge_rel edges)\<^sup>*"
    proof
      assume "(x, src) \<in> (edge_rel edges)\<^sup>*"
      then have "src \<in> set visited"
        using xv "1.prems"(4) by (intro closed_set_reaches_inside[of x src "edge_rel edges"]) auto
      with "1.prems"(3) show False by simp
    qed
  qed
next
  case (2 edges src nodeId stack visited)
  note closed = "2.prems"(4)
  show ?case
  proof (cases "nodeId = []")
    case True
    have c: "\<forall>v \<in> set visited. \<forall>w. (v, w) \<in> edge_rel edges \<longrightarrow> w \<in> set visited \<union> set stack"
      using closed True by (auto dest: edge_rel_nonempty)
    have "\<not> cycle_search edges src stack visited" using "2.prems"(1) True by simp
    then have r: "\<forall>x \<in> set stack \<union> set visited. (x, src) \<notin> (edge_rel edges)\<^sup>*"
      using "2.IH"(1)[OF True] "2.prems"(2,3) c by blast
    have "(nodeId, src) \<notin> (edge_rel edges)\<^sup>*"
      using True "2.prems"(2) empty_id_reaches_nothing[of src edges] by auto
    with r show ?thesis by auto
  next
    case ne: False
    have ns: "nodeId \<noteq> src" using "2.prems"(1) ne by auto
    show ?thesis
    proof (cases "nodeId \<in> set visited")
      case True
      have c: "\<forall>v \<in> set visited. \<forall>w. (v, w) \<in> edge_rel edges \<longrightarrow> w \<in> set visited \<union> set stack"
        using closed True by auto
      have "\<not> cycle_search edges src stack visited" using "2.prems"(1) ne ns True by simp
      then have "\<forall>x \<in> set stack \<union> set visited. (x, src) \<notin> (edge_rel edges)\<^sup>*"
        using "2.IH"(2)[OF ne ns True] "2.prems"(2,3) c by blast
      with True show ?thesis by auto
    next
      case nv: False
      have s': "src \<notin> set (nodeId # visited)" using "2.prems"(3) ns by auto
      show ?thesis
      proof (cases "build_adjacency edges nodeId")
        case None
        then have "{t. (nodeId, t) \<in> edge_rel edges} = {}"
          using out_neighbors_rel[of edges nodeId] by (simp add: build_adjacency_eq split: if_splits)
        then have c: "\<forall>v \<in> set (nodeId # visited). \<forall>w. (v, w) \<in> edge_rel edges \<longrightarrow>
                        w \<in> set (nodeId # visited) \<union> set stack"
          using closed by auto
        have "\<not> cycle_search edges src stack (nodeId # visited)"
          using "2.prems"(1) ne ns nv None by simp
        then have "\<forall>x \<in> set stack \<union> set (nodeId # visited). (x, src) \<notin> (edge_rel edges)\<^sup>*"
          using "2.IH"(3)[OF ne ns nv None] "2.prems"(2) s' c by blast
        then show ?thesis by auto
      next
        case (Some neighbors)
        have nb: "set neighbors = {t. (nodeId, t) \<in> edge_rel edges}"
          using Some out_neighbors_rel[of edges nodeId]
          by (simp add: build_adjacency_eq split: if_splits)
        let ?stack = "push_unvisited (nodeId # visited) stack neighbors"
        have c: "\<forall>v \<in> set (nodeId # visited). \<forall>w. (v, w) \<in> edge_rel edges \<longrightarrow>
                        w \<in> set (nodeId # visited) \<union> set ?stack"
          using closed nb by (auto simp: push_unvisited_set)
        have "\<not> cycle_search edges src ?stack (nodeId # visited)"
          using "2.prems"(1) ne ns nv Some by simp
        then have "\<forall>x \<in> set ?stack \<union> set (nodeId # visited). (x, src) \<notin> (edge_rel edges)\<^sup>*"
          using "2.IH"(4)[OF ne ns nv Some] "2.prems"(2) s' c by blast
        then show ?thesis by (auto simp: push_unvisited_set)
      qed
    qed
  qed
qed

lemma createsCycle_iff:
  "createsCycle connection edges =
     (\<not> truthy_string (source connection) \<or> \<not> truthy_string (target connection)
      \<or> source connection = target connection
      \<or> (the (target connection), the (source connection)) \<in> (edge_rel edges)\<^sup>+)"
proof (cases "\<not> truthy_string (source connection) \<or> \<not> truthy_string (target connection)
      \<or> source connection = target connection")
  case True
  then show ?thesis by (auto simp: createsCycle_def)
next
  case False
  then obtain s t where st: "source connection = Some s" "target connection = Some t"
      "s \<noteq> []" "t \<noteq> []" "s \<noteq> t"
    by (cases "source connection"; cases "target connection") auto
  have "cycle_search edges s [t] [] = ((t, s) \<in> (edge_rel edges)\<^sup>*)"
  proof
    assume "cycle_search edges s [t] []"
    then show "(t, s) \<in> (edge_rel edges)\<^sup>*" using cycle_search_sound[of edges s "[t]" "[]"] by simp
  next
    assume r: "(t, s) \<in> (edge_rel edges)\<^sup>*"
    show "cycle_search edges s [t] []"
    proof (rule ccontr)
      assume "\<not> cycle_search edges s [t] []"
      then have "(t, s) \<notin> (edge_rel edges)\<^sup>*"
        using cycle_search_complete[of edges s "[t]" "[]"] st(3) by simp
      with r show False by simp
    qed
  qed
  moreover have "((t, s) \<in> (edge_rel edges)\<^sup>*) = ((t, s) \<in> (edge_rel edges)\<^sup>+)"
    using st(5) by (auto simp: rtrancl_eq_or_trancl)
  ultimately show ?thesis using st by (simp add: createsCycle_def)
qed

lemma parseHandleSlotName_iff:
  "(parseHandleSlotName h p = Some s) = (h = Some (p @ s) \<and> s \<noteq> [])"
proof (cases h)
  case None
  then show ?thesis by (simp add: parseHandleSlotName_def)
next
  case (Some x)
  have "take (length p) x = p \<and> drop (length p) x = s \<longleftrightarrow> x = p @ s"
    by (metis append_eq_conv_conj append_take_drop_id)
  then show ?thesis using Some
    by (auto simp: parseHandleSlotName_def startsWith_def Let_def)
qed

lemma resolveConnectionSlots_Some:
  "(resolveConnectionSlots c nodes S = Some r) =
     (\<exists>src tgt sn tn.
        source c = Some src \<and> src \<noteq> [] \<and> target c = Some tgt \<and> tgt \<noteq> []
        \<and> sourceHandle c = Some (''out-'' @ sn) \<and> sn \<noteq> []
        \<and> targetHandle c = Some (''in-'' @ tn) \<and> tn \<noteq> []
        \<and> find (\<lambda>node. node_id node = src) nodes = Some (sourceNode r)
        \<and> find (\<lambda>node. node_id node = tgt) nodes = Some (targetNode r)
        \<and> schema_of S (sourceNode r) = Some (sourceSchema r)
        \<and> schema_of S (targetNode r) = Some (targetSchema r)
        \<and> find (\<lambda>slot. oname slot = sn) (outputs (sourceSchema r)) = Some (sourceSlot r)
        \<and> find (\<lambda>slot. name slot = tn) (inputs (targetSchema r)) = Some (targetSlot r))"
proof (cases "source c")
  case None
  then show ?thesis by (simp add: resolveConnectionSlots_def)
next
  case src: (Some src)
  show ?thesis
  proof (cases "target c")
    case None
    then show ?thesis by (simp add: resolveConnectionSlots_def)
  next
    case tgt: (Some tgt)
    show ?thesis
    proof (cases "parseHandleSlotName (sourceHandle c) ''out-''")
      case None
      then have "\<not> (\<exists>sn. sourceHandle c = Some (''out-'' @ sn) \<and> sn \<noteq> [])"
        using parseHandleSlotName_iff[of "sourceHandle c" "''out-''"] by auto
      then show ?thesis using None src tgt by (auto simp: resolveConnectionSlots_def)
    next
      case sn: (Some sn)
      then have sh: "sourceHandle c = Some (''out-'' @ sn)" "sn \<noteq> []"
        using parseHandleSlotName_iff[of "sourceHandle c" "''out-''" sn] by auto
      show ?thesis
      proof (cases "parseHandleSlotName (targetHandle c) ''in-''")
        case None
        then have "\<not> (\<exists>tn. targetHandle c = Some (''in-'' @ tn) \<and> tn \<noteq> [])"
          using parseHandleSlotName_iff[of "targetHandle c" "''in-''"] by auto
        then show ?thesis using None src tgt sn by (auto simp: resolveConnectionSlots_def)
      next
        case tn: (Some tn)
        then have th: "targetHandle c = Some (''in-'' @ tn)" "tn \<noteq> []"
          using parseHandleSlotName_iff[of "targetHandle c" "''in-''" tn] by auto
        show ?thesis
          unfolding resolveConnectionSlots_def
          using src tgt sn tn sh th
          by (auto split: option.splits)
      qed
    qed
  qed
qed

text \<open>
  C3: the connection validator accepts a candidate edge if and only if both endpoint ids
  are present, both handles are the direction marker (\<^verbatim>\<open>out-\<close> for the source,
  \<^verbatim>\<open>in-\<close> for the target) followed by a non-empty slot name, both endpoint nodes are found
  among the nodes, both node types have a schema, the named output slot and the named
  input slot are found in these schemas, the input slot declares a type and it is equal to
  the type of the output slot, the two endpoints differ, and the existing edges hold no
  directed path from the candidate target to the candidate source. (An id or a type that
  is the empty string counts as absent, as the truthiness tests of the code treat it, and
  an edge without a source or a target is no edge of the graph.) The validator is a function
  of the candidate, the nodes, the schemas and the edges; it returns a boolean and changes
  none of them.
\<close>

theorem isConnectionValid_iff:
  "isConnectionValid c nodes S edges =
     (\<exists>src tgt sn tn sNode tNode sSchema tSchema sSlot tSlot.
        source c = Some src \<and> src \<noteq> [] \<and> target c = Some tgt \<and> tgt \<noteq> []
        \<and> sourceHandle c = Some (''out-'' @ sn) \<and> sn \<noteq> []
        \<and> targetHandle c = Some (''in-'' @ tn) \<and> tn \<noteq> []
        \<and> find (\<lambda>node. node_id node = src) nodes = Some sNode
        \<and> find (\<lambda>node. node_id node = tgt) nodes = Some tNode
        \<and> schema_of S sNode = Some sSchema
        \<and> schema_of S tNode = Some tSchema
        \<and> find (\<lambda>slot. oname slot = sn) (outputs sSchema) = Some sSlot
        \<and> find (\<lambda>slot. name slot = tn) (inputs tSchema) = Some tSlot
        \<and> valueType tSlot \<noteq> [] \<and> otype sSlot = valueType tSlot
        \<and> src \<noteq> tgt
        \<and> (tgt, src) \<notin> (edge_rel edges)\<^sup>+)"
  (is "?L = ?R")
proof
  assume ?L
  then obtain r where r: "resolveConnectionSlots c nodes S = Some r" "isTypeCompatible r"
      "\<not> createsCycle c edges"
    by (auto simp: isConnectionValid_def split: option.splits if_splits)
  from r(1) obtain src tgt sn tn where
    a: "source c = Some src" "src \<noteq> []" "target c = Some tgt" "tgt \<noteq> []"
       "sourceHandle c = Some (''out-'' @ sn)" "sn \<noteq> []"
       "targetHandle c = Some (''in-'' @ tn)" "tn \<noteq> []"
       "find (\<lambda>node. node_id node = src) nodes = Some (sourceNode r)"
       "find (\<lambda>node. node_id node = tgt) nodes = Some (targetNode r)"
       "schema_of S (sourceNode r) = Some (sourceSchema r)"
       "schema_of S (targetNode r) = Some (targetSchema r)"
       "find (\<lambda>slot. oname slot = sn) (outputs (sourceSchema r)) = Some (sourceSlot r)"
       "find (\<lambda>slot. name slot = tn) (inputs (targetSchema r)) = Some (targetSlot r)"
    unfolding resolveConnectionSlots_Some by blast
  have t: "valueType (targetSlot r) \<noteq> []" "otype (sourceSlot r) = valueType (targetSlot r)"
    using r(2) by (auto simp: isTypeCompatible_def Let_def split: if_splits)
  have p: "src \<noteq> tgt" "(tgt, src) \<notin> (edge_rel edges)\<^sup>+"
    using r(3) a(1-4) by (auto simp: createsCycle_iff)
  show ?R
    using a t p by blast
next
  assume ?R
  then obtain src tgt sn tn sNode tNode sSchema tSchema sSlot tSlot where
    a: "source c = Some src" "src \<noteq> []" "target c = Some tgt" "tgt \<noteq> []"
       "sourceHandle c = Some (''out-'' @ sn)" "sn \<noteq> []"
       "targetHandle c = Some (''in-'' @ tn)" "tn \<noteq> []"
       "find (\<lambda>node. node_id node = src) nodes = Some sNode"
       "find (\<lambda>node. node_id node = tgt) nodes = Some tNode"
       "schema_of S sNode = Some sSchema"
       "schema_of S tNode = Some tSchema"
       "find (\<lambda>slot. oname slot = sn) (outputs sSchema) = Some sSlot"
       "find (\<lambda>slot. name slot = tn) (inputs tSchema) = Some tSlot"
    and t: "valueType tSlot \<noteq> []" "otype sSlot = valueType tSlot"
    and p: "src \<noteq> tgt" "(tgt, src) \<notin> (edge_rel edges)\<^sup>+"
    by blast
  let ?r = "\<lparr>sourceNode = sNode, targetNode = tNode, sourceSchema = sSchema,
             targetSchema = tSchema, sourceSlot = sSlot, targetSlot = tSlot\<rparr>"
  have "resolveConnectionSlots c nodes S = Some ?r"
    unfolding resolveConnectionSlots_Some using a by simp
  moreover have "isTypeCompatible ?r" using t by (simp add: isTypeCompatible_def)
  moreover have "\<not> createsCycle c edges" using a(1-4) p by (simp add: createsCycle_iff)
  ultimately show ?L by (simp add: isConnectionValid_def)
qed

theorem isConnectionValid_iff_witness:
  "isConnectionValid (ex_edge ''f1'' ''out-IMAGE'' ''f2'' ''in-image'') ex_canvas_nodes ex_schemas
      ex_canvas_edges
   \<and> (''f2'', ''f1'') \<notin> (edge_rel ex_canvas_edges)\<^sup>+
   \<and> (''f1'', ''f2'') \<in> (edge_rel ex_canvas_edges)\<^sup>+
   \<and> \<not> isConnectionValid (ex_edge ''f2'' ''out-IMAGE'' ''f1'' ''in-image'') ex_canvas_nodes ex_schemas
        ex_canvas_edges
   \<and> \<not> isConnectionValid (ex_edge ''f1'' ''out-IMAGE'' ''f1'' ''in-image'') ex_canvas_nodes ex_schemas
        ex_canvas_edges"
proof -
  have v: "isConnectionValid (ex_edge ''f1'' ''out-IMAGE'' ''f2'' ''in-image'') ex_canvas_nodes
      ex_schemas ex_canvas_edges"
    by code_simp
  have n: "(''f2'', ''f1'') \<notin> (edge_rel ex_canvas_edges)\<^sup>+"
    using v isConnectionValid_iff
      [of "ex_edge ''f1'' ''out-IMAGE'' ''f2'' ''in-image''" ex_canvas_nodes ex_schemas ex_canvas_edges]
    by (auto simp: ex_edge_def)
  have p: "(''f1'', ''f2'') \<in> (edge_rel ex_canvas_edges)\<^sup>+"
    by (rule r_into_trancl) (simp add: edge_rel_def ex_canvas_edges_def ex_edge_def)
  have b: "\<not> isConnectionValid (ex_edge ''f2'' ''out-IMAGE'' ''f1'' ''in-image'') ex_canvas_nodes
      ex_schemas ex_canvas_edges"
    using p isConnectionValid_iff
      [of "ex_edge ''f2'' ''out-IMAGE'' ''f1'' ''in-image''" ex_canvas_nodes ex_schemas ex_canvas_edges]
    by (auto simp: ex_edge_def)
  have s: "\<not> isConnectionValid (ex_edge ''f1'' ''out-IMAGE'' ''f1'' ''in-image'') ex_canvas_nodes
      ex_schemas ex_canvas_edges"
    using isConnectionValid_iff
      [of "ex_edge ''f1'' ''out-IMAGE'' ''f1'' ''in-image''" ex_canvas_nodes ex_schemas ex_canvas_edges]
    by (auto simp: ex_edge_def)
  show ?thesis by (intro conjI v n p b s)
qed

section \<open>Properties of the control-field engine\<close>

lemma finite_number_or_Fin: "\<exists>q. finite_number_or c (Fin d) = Fin q"
  by (cases "(c, Fin d)" rule: finite_number_or.cases) (auto split: if_splits, (case_tac n; simp)+)

lemma resolveNumberStep_eq:
  "resolveNumberStep slot =
     (case cfg_step slot of
        Some (Num (Fin q)) \<Rightarrow> if q = 0 then Fin 1 else Fin \<bar>q\<bar>
      | _ \<Rightarrow> Fin 1)"
  by (simp add: resolveNumberStep_def split: option.splits widget_value.splits jsnum.splits)

lemma resolveNumberStep_pos: "\<exists>s. resolveNumberStep slot = Fin s \<and> 0 < s"
  by (simp add: resolveNumberStep_eq split: option.splits widget_value.splits jsnum.splits)

lemma resolveNumberBounds_finite:
  "\<exists>lo hi. resolveNumberBounds slot (Fin d) (Fin s) = (Fin lo, Fin hi) \<and> lo \<le> hi"
proof -
  obtain a where a: "finite_number_or (cfg_min slot) (Fin d) = Fin a"
    using finite_number_or_Fin by blast
  obtain b where b: "finite_number_or (cfg_max slot) (Fin (a + s)) = Fin b"
    using finite_number_or_Fin by blast
  define min1 where "min1 = (if b < a then b else a)"
  define max1 where "max1 = (if b < a then a else b)"
  define min2 where "min2 = max (- 1125899906842624) min1"
  define max2 where "max2 = min 1125899906842624 max1"
  define max3 where "max3 = (if max2 < min2 then min2 else max2)"
  have "resolveNumberBounds slot (Fin d) (Fin s) = (Fin min2, Fin max3)"
    unfolding resolveNumberBounds_def Let_def
    by (simp add: a b js_max_def js_min_def MAX_RANDOM_RANGE_def max_def min_def
          min1_def max1_def min2_def max2_def max3_def)
  moreover have "min2 \<le> max3" by (simp add: max3_def)
  ultimately show ?thesis by blast
qed

lemma resolveNumericValue_finite: "\<exists>c. resolveNumericValue E v (Fin d) b = Fin c"
proof -
  have "\<exists>c. (case v of
           Some (Num n) \<Rightarrow> if isFinite n then n else Fin d
         | Some (Str s) \<Rightarrow> if isFinite (js_Number E s) then js_Number E s else Fin d
         | _ \<Rightarrow> Fin d) = Fin c"
  proof (cases v)
    case None
    then show ?thesis by simp
  next
    case (Some w)
    show ?thesis
    proof (cases w)
      case (Str s)
      then show ?thesis using Some by (cases "js_Number E s") simp_all
    next
      case (Num n)
      then show ?thesis using Some by (cases n) simp_all
    qed (simp_all add: Some)
  qed
  then obtain c where "(case v of
           Some (Num n) \<Rightarrow> if isFinite n then n else Fin d
         | Some (Str s) \<Rightarrow> if isFinite (js_Number E s) then js_Number E s else Fin d
         | _ \<Rightarrow> Fin d) = Fin c" by blast
  then show ?thesis by (cases b) (simp_all add: resolveNumericValue_def Let_def)
qed

lemma clamp_number_finite:
  "lo \<le> hi \<Longrightarrow> clamp_number (Fin lo) (Fin hi) (Fin x) = Fin (max lo (min hi x))"
  by (auto simp: clamp_number_def Let_def)

lemma trunc_real_of_int: "trunc_real (of_int z) = of_int z"
  by (simp add: trunc_real_def)

lemma applyNumberControl_increment:
  "applyNumberControl E k ''increment'' slot spec raw =
     (Some ((if valueType slot = ''INT'' then js_trunc else id)
        (clamp_number (fst (resolveNumberBounds slot (number_default spec) (resolveNumberStep slot)))
           (snd (resolveNumberBounds slot (number_default spec) (resolveNumberStep slot)))
           (js_add (resolveNumericValue E raw (number_default spec) (valueType slot = ''INT''))
              (resolveNumberStep slot)))), k)"
  by (simp add: applyNumberControl_def Let_def split: prod.splits)

lemma applyNumberControl_decrement:
  "applyNumberControl E k ''decrement'' slot spec raw =
     (Some ((if valueType slot = ''INT'' then js_trunc else id)
        (clamp_number (fst (resolveNumberBounds slot (number_default spec) (resolveNumberStep slot)))
           (snd (resolveNumberBounds slot (number_default spec) (resolveNumberStep slot)))
           (js_sub (resolveNumericValue E raw (number_default spec) (valueType slot = ''INT''))
              (resolveNumberStep slot)))), k)"
  by (simp add: applyNumberControl_def Let_def split: prod.splits)


lemma applyNumberControl_randomize:
  assumes b: "resolveNumberBounds slot (number_default spec) (resolveNumberStep slot) = (Fin lo, Fin hi)"
    and s: "resolveNumberStep slot = Fin s"
  shows "applyNumberControl E k ''randomize'' slot spec raw =
     (if 0 < (hi - lo) / s
      then (Some ((if valueType slot = ''INT'' then js_trunc else id)
                    (clamp_number (Fin lo) (Fin hi)
                       (Fin (of_int \<lfloor>js_random E k * ((hi - lo) / s)\<rfloor> * s + lo)))), Suc k)
      else (Some ((if valueType slot = ''INT'' then js_trunc else id)
                    (clamp_number (Fin lo) (Fin hi) (Fin lo))), k))"
proof -
  have sp: "s \<noteq> 0" using resolveNumberStep_pos[of slot] s by auto
  have b': "resolveNumberBounds slot (number_default spec) (Fin s) = (Fin lo, Fin hi)"
    using b s by simp
  show ?thesis
    using sp by (simp add: applyNumberControl_def Let_def b' s js_sub_def)
qed


lemma increment_example:
  assumes "cfg_step slot = Some (Num (Fin 2))" and "cfg_max slot = Some (Num (Fin 10))"
    and "finite_number_or (cfg_min slot) (number_default spec) = Fin m" and "m \<le> 5"
  shows "fst (applyNumberControl E k ''increment'' slot spec (Some (Num (Fin 5)))) = Some (Fin 7)"
    and "fst (applyNumberControl E k ''increment'' slot spec (Some (Num (Fin 9)))) = Some (Fin 10)"
proof -
  have s: "resolveNumberStep slot = Fin 2" using assms(1) by (simp add: resolveNumberStep_eq)
  have b: "resolveNumberBounds slot (number_default spec) (Fin 2)
             = (Fin (max (- 1125899906842624) m), Fin 10)"
    using assms(2,3,4)
    by (simp add: resolveNumberBounds_def Let_def js_max_def js_min_def MAX_RANDOM_RANGE_def max_def)
  have t: "trunc_real 5 = 5" "trunc_real 9 = 9" "trunc_real 7 = 7" "trunc_real 10 = 10"
    by (simp_all add: trunc_real_def)
  have c: "resolveNumericValue E (Some (Num (Fin 5))) (number_default spec) (valueType slot = ''INT'') = Fin 5"
    "resolveNumericValue E (Some (Num (Fin 9))) (number_default spec) (valueType slot = ''INT'') = Fin 9"
    by (simp_all add: resolveNumericValue_def Let_def t)
  have lo: "max (- 1125899906842624) m \<le> 5" using assms(4) by simp
  show "fst (applyNumberControl E k ''increment'' slot spec (Some (Num (Fin 5)))) = Some (Fin 7)"
    using lo by (simp add: applyNumberControl_increment s b c clamp_number_finite t)
  show "fst (applyNumberControl E k ''increment'' slot spec (Some (Num (Fin 9)))) = Some (Fin 10)"
    using lo by (simp add: applyNumberControl_increment s b c clamp_number_finite t)
qed

lemma randomize_example:
  assumes "cfg_min slot = Some (Num (Fin 0))" and "cfg_max slot = Some (Num (Fin 10))"
    and "cfg_step slot = Some (Num (Fin 1))"
    and "0 \<le> js_random E k" and "js_random E k < 1"
  shows "\<exists>n::nat. n \<le> 10 \<and> fst (applyNumberControl E k ''randomize'' slot spec raw) = Some (Fin (real n))"
proof -
  let ?r = "js_random E k"
  have s: "resolveNumberStep slot = Fin 1" using assms(3) by (simp add: resolveNumberStep_eq)
  have b: "resolveNumberBounds slot (number_default spec) (resolveNumberStep slot) = (Fin 0, Fin 10)"
    using assms(1,2)
    by (simp add: s resolveNumberBounds_def Let_def js_max_def js_min_def MAX_RANDOM_RANGE_def)
  have f0: "0 \<le> \<lfloor>?r * 10\<rfloor>" using assms(4) by simp
  have "?r * 10 < 10" using assms(5) by simp
  then have f1: "\<lfloor>?r * 10\<rfloor> < 10" by (simp add: floor_less_iff)
  define n where "n = nat \<lfloor>?r * 10\<rfloor>"
  have n: "real n = of_int \<lfloor>?r * 10\<rfloor>" "n \<le> 10"
    using f0 f1 by (simp_all add: n_def nat_le_iff)
  have "fst (applyNumberControl E k ''randomize'' slot spec raw) = Some (Fin (real n))"
    using f0 f1
    by (simp add: applyNumberControl_randomize[OF b s] clamp_number_finite n(1) trunc_real_of_int)
  then show ?thesis using n(2) by blast
qed


text \<open>
  C4: the step of a numeric slot is the absolute value of the declared step, and 1 when
  the declared step is absent, not a finite number or zero. Increment adds the step to
  the current value and decrement subtracts it; the result is clamped between the
  resolved bounds and then truncated toward zero when the slot is INT-declared. When the
  default of the widget is finite, the bounds are finite and ordered and the clamped
  value lies between them. In particular, with step 2, max 10 and a min of at most 5,
  increment from 5 gives 7 and increment from 9 gives 10; and with min 0, max 10 and
  step 1 every randomize draw gives one of 0, ..., 10.
\<close>

theorem number_control_step_and_clamp:
  "resolveNumberStep slot =
      (case cfg_step slot of
         Some (Num (Fin q)) \<Rightarrow> if q = 0 then Fin 1 else Fin \<bar>q\<bar>
       | _ \<Rightarrow> Fin 1)
   \<and> applyNumberControl E k ''increment'' slot spec raw =
       (Some ((if valueType slot = ''INT'' then js_trunc else id)
          (clamp_number (fst (resolveNumberBounds slot (number_default spec) (resolveNumberStep slot)))
             (snd (resolveNumberBounds slot (number_default spec) (resolveNumberStep slot)))
             (js_add (resolveNumericValue E raw (number_default spec) (valueType slot = ''INT''))
                (resolveNumberStep slot)))), k)
   \<and> applyNumberControl E k ''decrement'' slot spec raw =
       (Some ((if valueType slot = ''INT'' then js_trunc else id)
          (clamp_number (fst (resolveNumberBounds slot (number_default spec) (resolveNumberStep slot)))
             (snd (resolveNumberBounds slot (number_default spec) (resolveNumberStep slot)))
             (js_sub (resolveNumericValue E raw (number_default spec) (valueType slot = ''INT''))
                (resolveNumberStep slot)))), k)
   \<and> (\<forall>d. number_default spec = Fin d \<longrightarrow>
         (\<exists>s lo hi c. 0 < s \<and> resolveNumberStep slot = Fin s
            \<and> resolveNumberBounds slot (Fin d) (Fin s) = (Fin lo, Fin hi) \<and> lo \<le> hi
            \<and> resolveNumericValue E raw (Fin d) (valueType slot = ''INT'') = Fin c
            \<and> fst (applyNumberControl E k ''increment'' slot spec raw) =
                Some (Fin ((if valueType slot = ''INT'' then trunc_real else id)
                             (max lo (min hi (c + s)))))
            \<and> fst (applyNumberControl E k ''decrement'' slot spec raw) =
                Some (Fin ((if valueType slot = ''INT'' then trunc_real else id)
                             (max lo (min hi (c - s)))))))
   \<and> (cfg_step slot = Some (Num (Fin 2)) \<and> cfg_max slot = Some (Num (Fin 10))
        \<and> finite_number_or (cfg_min slot) (number_default spec) = Fin m \<and> m \<le> 5 \<longrightarrow>
         fst (applyNumberControl E k ''increment'' slot spec (Some (Num (Fin 5)))) = Some (Fin 7)
         \<and> fst (applyNumberControl E k ''increment'' slot spec (Some (Num (Fin 9)))) = Some (Fin 10))
   \<and> (cfg_min slot = Some (Num (Fin 0)) \<and> cfg_max slot = Some (Num (Fin 10))
        \<and> cfg_step slot = Some (Num (Fin 1)) \<and> 0 \<le> js_random E k \<and> js_random E k < 1 \<longrightarrow>
         (\<exists>n::nat. n \<le> 10
            \<and> fst (applyNumberControl E k ''randomize'' slot spec raw) = Some (Fin (real n))))"
proof -
  have 4: "\<forall>d. number_default spec = Fin d \<longrightarrow>
         (\<exists>s lo hi c. 0 < s \<and> resolveNumberStep slot = Fin s
            \<and> resolveNumberBounds slot (Fin d) (Fin s) = (Fin lo, Fin hi) \<and> lo \<le> hi
            \<and> resolveNumericValue E raw (Fin d) (valueType slot = ''INT'') = Fin c
            \<and> fst (applyNumberControl E k ''increment'' slot spec raw) =
                Some (Fin ((if valueType slot = ''INT'' then trunc_real else id)
                             (max lo (min hi (c + s)))))
            \<and> fst (applyNumberControl E k ''decrement'' slot spec raw) =
                Some (Fin ((if valueType slot = ''INT'' then trunc_real else id)
                             (max lo (min hi (c - s))))))"
  proof (intro allI impI)
    fix d assume d: "number_default spec = Fin d"
    obtain s where s: "resolveNumberStep slot = Fin s" "0 < s"
      using resolveNumberStep_pos by blast
    obtain lo hi where b: "resolveNumberBounds slot (Fin d) (Fin s) = (Fin lo, Fin hi)" "lo \<le> hi"
      using resolveNumberBounds_finite by blast
    obtain c where c: "resolveNumericValue E raw (Fin d) (valueType slot = ''INT'') = Fin c"
      using resolveNumericValue_finite by blast
    have i: "fst (applyNumberControl E k ''increment'' slot spec raw) =
                Some (Fin ((if valueType slot = ''INT'' then trunc_real else id)
                             (max lo (min hi (c + s)))))"
      by (simp add: applyNumberControl_increment d s b c clamp_number_finite)
    have e: "fst (applyNumberControl E k ''decrement'' slot spec raw) =
                Some (Fin ((if valueType slot = ''INT'' then trunc_real else id)
                             (max lo (min hi (c - s)))))"
      by (simp add: applyNumberControl_decrement d s b c clamp_number_finite js_sub_def)
    show "\<exists>s lo hi c. 0 < s \<and> resolveNumberStep slot = Fin s
            \<and> resolveNumberBounds slot (Fin d) (Fin s) = (Fin lo, Fin hi) \<and> lo \<le> hi
            \<and> resolveNumericValue E raw (Fin d) (valueType slot = ''INT'') = Fin c
            \<and> fst (applyNumberControl E k ''increment'' slot spec raw) =
                Some (Fin ((if valueType slot = ''INT'' then trunc_real else id)
                             (max lo (min hi (c + s)))))
            \<and> fst (applyNumberControl E k ''decrement'' slot spec raw) =
                Some (Fin ((if valueType slot = ''INT'' then trunc_real else id)
                             (max lo (min hi (c - s)))))"
      using s b c i e by blast
  qed
  have 5: "cfg_step slot = Some (Num (Fin 2)) \<and> cfg_max slot = Some (Num (Fin 10))
        \<and> finite_number_or (cfg_min slot) (number_default spec) = Fin m \<and> m \<le> 5 \<longrightarrow>
         fst (applyNumberControl E k ''increment'' slot spec (Some (Num (Fin 5)))) = Some (Fin 7)
         \<and> fst (applyNumberControl E k ''increment'' slot spec (Some (Num (Fin 9)))) = Some (Fin 10)"
    using increment_example[of slot spec m E k] by blast
  have 6: "cfg_min slot = Some (Num (Fin 0)) \<and> cfg_max slot = Some (Num (Fin 10))
        \<and> cfg_step slot = Some (Num (Fin 1)) \<and> 0 \<le> js_random E k \<and> js_random E k < 1 \<longrightarrow>
         (\<exists>n::nat. n \<le> 10
            \<and> fst (applyNumberControl E k ''randomize'' slot spec raw) = Some (Fin (real n)))"
    using randomize_example[of slot E k spec raw] by blast
  show ?thesis
    by (intro conjI resolveNumberStep_eq applyNumberControl_increment applyNumberControl_decrement
          4 5 6)
qed

theorem number_control_step_and_clamp_witness:
  "cfg_step step2_slot = Some (Num (Fin 2)) \<and> cfg_max step2_slot = Some (Num (Fin 10))
   \<and> finite_number_or (cfg_min step2_slot) (number_default ex_number_spec) = Fin 0 \<and> (0::real) \<le> 5
   \<and> fst (applyNumberControl ex_env 0 ''increment'' step2_slot ex_number_spec (Some (Num (Fin 5))))
        = Some (Fin 7)
   \<and> fst (applyNumberControl ex_env 0 ''increment'' step2_slot ex_number_spec (Some (Num (Fin 9))))
        = Some (Fin 10)
   \<and> cfg_min unit_slot = Some (Num (Fin 0)) \<and> cfg_max unit_slot = Some (Num (Fin 10))
   \<and> cfg_step unit_slot = Some (Num (Fin 1)) \<and> 0 \<le> js_random ex_env 0 \<and> js_random ex_env 0 < 1
   \<and> (\<exists>n::nat. n \<le> 10
        \<and> fst (applyNumberControl ex_env 0 ''randomize'' unit_slot ex_number_spec None) = Some (Fin (real n)))
   \<and> applyNumberControl ex_env 0 ''randomize'' unit_slot ex_number_spec None = (Some (Fin 5), 1)"
proof -
  have h: "cfg_step step2_slot = Some (Num (Fin 2))" "cfg_max step2_slot = Some (Num (Fin 10))"
    "finite_number_or (cfg_min step2_slot) (number_default ex_number_spec) = Fin 0" "(0::real) \<le> 5"
    by (simp_all add: step2_slot_def plain_slot_def number_default_def ex_number_spec_def)
  have g: "cfg_min unit_slot = Some (Num (Fin 0))" "cfg_max unit_slot = Some (Num (Fin 10))"
    "cfg_step unit_slot = Some (Num (Fin 1))" "0 \<le> js_random ex_env 0" "js_random ex_env 0 < 1"
    by (simp_all add: unit_slot_def plain_slot_def ex_env_def ex_random_def)
  have v: "applyNumberControl ex_env 0 ''randomize'' unit_slot ex_number_spec None = (Some (Fin 5), 1)"
    by code_simp
  note T = number_control_step_and_clamp[of step2_slot ex_env 0 ex_number_spec None 0]
  note U = number_control_step_and_clamp[of unit_slot ex_env 0 ex_number_spec None 0]
  have a: "fst (applyNumberControl ex_env 0 ''increment'' step2_slot ex_number_spec (Some (Num (Fin 5))))
        = Some (Fin 7)
     \<and> fst (applyNumberControl ex_env 0 ''increment'' step2_slot ex_number_spec (Some (Num (Fin 9))))
        = Some (Fin 10)"
    using T[THEN conjunct2, THEN conjunct2, THEN conjunct2, THEN conjunct2, THEN conjunct1] h
    by simp
  have r: "\<exists>n::nat. n \<le> 10
        \<and> fst (applyNumberControl ex_env 0 ''randomize'' unit_slot ex_number_spec None) = Some (Fin (real n))"
    using U[THEN conjunct2, THEN conjunct2, THEN conjunct2, THEN conjunct2, THEN conjunct2] g
    by simp
  show ?thesis
    by (intro conjI h g a[THEN conjunct1] a[THEN conjunct2] r v)
qed






lemma setWidgetValue_executed [simp]: "executed (setWidgetValue node st nm v) = executed st"
  by (simp add: setWidgetValue_def)











lemma copy_differs_draws [simp]: "copy_differs node (st\<lparr>slot_draws := k\<rparr>) = copy_differs node st"
  by (simp add: copy_differs_def)

lemma copy_differs_executed [simp]: "copy_differs node (st\<lparr>executed := x\<rparr>) = copy_differs node st"
  by (simp add: copy_differs_def)

lemma copy_differs_set:
  assumes "Some v \<noteq> widgetValues node nm"
  shows "copy_differs node (setWidgetValue node st nm v)"
proof -
  have "((case nextWidgetValues st of None \<Rightarrow> widgetValues node | Some m \<Rightarrow> m)(nm \<mapsto> v)) nm
          \<noteq> widgetValues node nm"
    using assms by simp
  then have "(case nextWidgetValues st of None \<Rightarrow> widgetValues node | Some m \<Rightarrow> m)(nm \<mapsto> v)
          \<noteq> widgetValues node"
    by metis
  then show ?thesis by (simp add: copy_differs_def setWidgetValue_def)
qed

lemma control_slot_differs:
  "copy_differs node st \<Longrightarrow> copy_differs node (control_slot E mode node st slot)"
  by (auto simp: control_slot_def Let_def copy_differs_set split: option.splits prod.splits)

lemma control_slots_differs:
  "copy_differs node st \<Longrightarrow> copy_differs node (foldl (control_slot E mode node) st slots)"
  by (induction slots arbitrary: st) (simp_all add: control_slot_differs)

lemma array_at_alloc_node [simp]:
  "array_at (h\<lparr>node_objects := objs, next_address := n\<rparr>) a = array_at h a"
  by (simp add: array_at_def)

lemma visit_node_shape:
  "(store (visit_node E S mode nodes st (i, a)) = store st
      \<and> nextNodes (visit_node E S mode nodes st (i, a)) = nextNodes st)
   \<or> (\<exists>node nwv. node_objects (store st) a = Some node \<and> nwv \<noteq> widgetValues node
         \<and> store (visit_node E S mode nodes st (i, a))
              = replace_node nodes (store st) (nextNodes st) i node nwv
         \<and> nextNodes (visit_node E S mode nodes st (i, a))
              = Some (case nextNodes st of Some arr \<Rightarrow> arr
                                          | None \<Rightarrow> Suc (next_address (store st))))"
proof (cases "node_objects (store st) a")
  case None
  then show ?thesis by (simp add: visit_node_def)
next
  case (Some node)
  show ?thesis
  proof (cases "truthy_string (nodeType node)")
    case False
    then show ?thesis using Some by (simp add: visit_node_def)
  next
    case True
    show ?thesis
    proof (cases "S (the (nodeType node))")
      case None
      then show ?thesis using Some True by (simp add: visit_node_def)
    next
      case sch: (Some schema)
      let ?ls = "foldl (control_slot E mode node)
                     \<lparr>nextWidgetValues = None, executed = executedControls st,
                      slot_draws = draws st\<rparr> (inputs schema)"
      have d: "copy_differs node ?ls"
        by (rule control_slots_differs) (simp add: copy_differs_def)
      show ?thesis
      proof (cases "nextWidgetValues ?ls")
        case None
        then show ?thesis using Some True sch by (simp add: visit_node_def Let_def)
      next
        case nw: (Some nwv)
        have ne: "nwv \<noteq> widgetValues node" using d nw by (simp add: copy_differs_def)
        have "store (visit_node E S mode nodes st (i, a))
                = replace_node nodes (store st) (nextNodes st) i node nwv
              \<and> nextNodes (visit_node E S mode nodes st (i, a))
                = Some (case nextNodes st of Some arr \<Rightarrow> arr
                                            | None \<Rightarrow> Suc (next_address (store st)))"
          using Some True sch nw
          by (cases "nextNodes st")
             (simp_all add: visit_node_def Let_def alloc_node_def alloc_array_def replace_node_def
                array_at_def)
        then show ?thesis using Some ne by blast
      qed
    qed
  qed
qed


lemma replace_node_inv:
  assumes inv: "engine_inv h nodes hs nn"
    and ok: "heap_ok h" and arr: "node_arrays h nodes = Some refs"
    and i: "i < length refs" and node: "node_objects h (refs ! i) = Some node"
    and ne: "nwv \<noteq> widgetValues node"
  shows "engine_inv h nodes (replace_node nodes hs nn i node nwv)
           (Some (case nn of Some arr \<Rightarrow> arr | None \<Rightarrow> Suc (next_address hs)))"
proof -
  let ?a = "next_address hs"
  let ?n' = "node\<lparr>widgetValues := nwv\<rparr>"
  let ?h' = "replace_node nodes hs nn i node nwv"
  have refs: "array_at h nodes = refs" using arr by (simp add: array_at_def)
  have hs_ok: "heap_ok hs" and mono: "next_address h \<le> ?a"
    and frame: "\<And>x. x < next_address h \<Longrightarrow> node_objects hs x = node_objects h x
                        \<and> node_arrays hs x = node_arrays h x"
    using inv by (auto simp: engine_inv_def)
  have new_obj: "node_objects ?h' ?a = Some ?n'" by (simp add: replace_node_def)
  have old_obj: "\<And>x. x \<noteq> ?a \<Longrightarrow> node_objects ?h' x = node_objects hs x"
    by (simp add: replace_node_def)
  have fresh: "next_address h \<le> ?a \<and> (\<exists>n n'. node_objects h (refs ! i) = Some n
                      \<and> node_objects ?h' ?a = Some n'
                      \<and> n' = n\<lparr>widgetValues := widgetValues n'\<rparr>
                      \<and> widgetValues n' \<noteq> widgetValues n)"
    using mono node new_obj ne by simp
  show ?thesis
  proof (cases nn)
    case None
    then have same: "hs = h" using inv by (simp add: engine_inv_def)
    have arrs: "node_arrays ?h' = (node_arrays h)(Suc ?a \<mapsto> refs[i := ?a])"
      and nxt: "next_address ?h' = Suc (Suc ?a)"
      using None same refs by (simp_all add: replace_node_def)
    have 1: "heap_ok ?h'"
      using ok same unfolding heap_ok_def nxt arrs
      by (auto simp: replace_node_def less_Suc_eq split: if_splits)
    have 2: "\<forall>x < next_address h. node_objects ?h' x = node_objects h x
                                 \<and> node_arrays ?h' x = node_arrays h x"
      using same arrs by (auto simp: replace_node_def)
    have 3: "replaced_ok h ?h' refs (refs[i := ?a])"
      unfolding replaced_ok_def
    proof (intro conjI allI impI)
      show "length (refs[i := ?a]) = length refs" by simp
      show "\<exists>j<length refs. next_address h \<le> refs[i := ?a] ! j"
        using i mono by (intro exI[of _ i]) simp
    next
      fix j assume j: "j < length refs"
      show "refs[i := ?a] ! j = refs ! j
            \<or> (next_address h \<le> refs[i := ?a] ! j
                \<and> (\<exists>n n'. node_objects h (refs ! j) = Some n
                      \<and> node_objects ?h' (refs[i := ?a] ! j) = Some n'
                      \<and> n' = n\<lparr>widgetValues := widgetValues n'\<rparr>
                      \<and> widgetValues n' \<noteq> widgetValues n))"
      proof (cases "j = i")
        case True
        then show ?thesis using fresh i by simp
      next
        case False
        then show ?thesis by simp
      qed
    qed
    show ?thesis
      unfolding engine_inv_def using None 1 2 3 same refs arrs nxt by simp
  next
    case (Some arr)
    then obtain refs' where a1: "next_address h \<le> arr" and a2: "node_arrays hs arr = Some refs'"
      and a3: "replaced_ok h hs refs refs'"
      using inv refs by (auto simp: engine_inv_def)
    have arr_lt: "arr < ?a" using hs_ok a2 by (auto simp: heap_ok_def)
    have arrs: "node_arrays ?h' = (node_arrays hs)(arr \<mapsto> refs'[i := ?a])"
      and nxt: "next_address ?h' = Suc ?a"
      using Some a2 by (simp_all add: replace_node_def array_at_def)
    have 1: "heap_ok ?h'"
      using hs_ok arr_lt unfolding heap_ok_def nxt arrs
      by (auto simp: replace_node_def less_Suc_eq split: if_splits)
    have 2: "\<forall>x < next_address h. node_objects ?h' x = node_objects h x
                                 \<and> node_arrays ?h' x = node_arrays h x"
      using frame mono a1 arrs by (auto simp: replace_node_def)
    have len: "length refs' = length refs" using a3 by (simp add: replaced_ok_def)
    have 3: "replaced_ok h ?h' refs (refs'[i := ?a])"
      unfolding replaced_ok_def
    proof (intro conjI allI impI)
      show "length (refs'[i := ?a]) = length refs" using len by simp
      show "\<exists>j<length refs. next_address h \<le> refs'[i := ?a] ! j"
        using i mono len by (intro exI[of _ i]) simp
    next
      fix j assume j: "j < length refs"
      show "refs'[i := ?a] ! j = refs ! j
            \<or> (next_address h \<le> refs'[i := ?a] ! j
                \<and> (\<exists>n n'. node_objects h (refs ! j) = Some n
                      \<and> node_objects ?h' (refs'[i := ?a] ! j) = Some n'
                      \<and> n' = n\<lparr>widgetValues := widgetValues n'\<rparr>
                      \<and> widgetValues n' \<noteq> widgetValues n))"
      proof (cases "j = i")
        case True
        then show ?thesis using fresh i len by simp
      next
        case False
        have old: "refs' ! j = refs ! j
            \<or> (next_address h \<le> refs' ! j
                \<and> (\<exists>n n'. node_objects h (refs ! j) = Some n
                      \<and> node_objects hs (refs' ! j) = Some n'
                      \<and> n' = n\<lparr>widgetValues := widgetValues n'\<rparr>
                      \<and> widgetValues n' \<noteq> widgetValues n))"
          using a3 j by (simp add: replaced_ok_def)
        show ?thesis
        proof (cases "refs' ! j = refs ! j")
          case True
          then show ?thesis using False by simp
        next
          case f: False
          then obtain n n' where o: "next_address h \<le> refs' ! j" "node_objects h (refs ! j) = Some n"
              "node_objects hs (refs' ! j) = Some n'" "n' = n\<lparr>widgetValues := widgetValues n'\<rparr>"
              "widgetValues n' \<noteq> widgetValues n"
            using old by blast
          have "refs' ! j < ?a" using hs_ok o(3) by (auto simp: heap_ok_def)
          then have "node_objects ?h' (refs' ! j) = Some n'" using o(3) old_obj by simp
          then show ?thesis using False o by auto
        qed
      qed
    qed
    show ?thesis
      unfolding engine_inv_def using Some 1 2 3 mono a1 refs arrs nxt by simp
  qed
qed

lemma visit_node_inv:
  assumes inv: "engine_inv h nodes (store st) (nextNodes st)"
    and ok: "heap_ok h" and arr: "node_arrays h nodes = Some refs"
    and valid: "\<forall>a \<in> set refs. node_objects h a \<noteq> None"
    and i: "i < length refs"
  shows "engine_inv h nodes (store (visit_node E S mode nodes st (i, refs ! i)))
           (nextNodes (visit_node E S mode nodes st (i, refs ! i)))"
proof -
  have lt: "refs ! i < next_address h"
    using valid i ok by (auto simp: heap_ok_def)
  have same: "node_objects (store st) (refs ! i) = node_objects h (refs ! i)"
    using inv lt by (simp add: engine_inv_def)
  from visit_node_shape[of E S mode nodes st i "refs ! i"]
  show ?thesis
  proof (elim disjE conjE exE)
    assume "store (visit_node E S mode nodes st (i, refs ! i)) = store st"
      "nextNodes (visit_node E S mode nodes st (i, refs ! i)) = nextNodes st"
    then show ?thesis using inv by simp
  next
    fix node nwv
    assume n: "node_objects (store st) (refs ! i) = Some node" "nwv \<noteq> widgetValues node"
      and s: "store (visit_node E S mode nodes st (i, refs ! i))
                = replace_node nodes (store st) (nextNodes st) i node nwv"
      and nn: "nextNodes (visit_node E S mode nodes st (i, refs ! i))
                = Some (case nextNodes st of Some arr \<Rightarrow> arr
                                            | None \<Rightarrow> Suc (next_address (store st)))"
    have "node_objects h (refs ! i) = Some node" using n(1) same by simp
    from replace_node_inv[OF inv ok arr i this n(2)]
    show ?thesis unfolding s nn .
  qed
qed

lemma visit_nodes_inv:
  assumes ok: "heap_ok h" and arr: "node_arrays h nodes = Some refs"
    and valid: "\<forall>a \<in> set refs. node_objects h a \<noteq> None"
    and ias: "\<forall>ia \<in> set ias. fst ia < length refs \<and> snd ia = refs ! fst ia"
    and inv: "engine_inv h nodes (store st) (nextNodes st)"
  shows "engine_inv h nodes (store (foldl (visit_node E S mode nodes) st ias))
           (nextNodes (foldl (visit_node E S mode nodes) st ias))"
  using ias inv
proof (induction ias arbitrary: st)
  case Nil
  then show ?case by simp
next
  case (Cons ia ias)
  obtain i a where ia: "ia = (i, a)" by (cases ia)
  have i: "i < length refs" "a = refs ! i" using Cons.prems(1) ia by auto
  have "engine_inv h nodes (store (visit_node E S mode nodes st ia))
           (nextNodes (visit_node E S mode nodes st ia))"
    unfolding ia i(2) by (rule visit_node_inv[OF Cons.prems(2) ok arr valid i(1)])
  then show ?case using Cons.IH Cons.prems(1) by simp
qed

lemma zip_index_refs:
  "\<forall>ia \<in> set (zip [0..<length refs] refs). fst ia < length refs \<and> snd ia = refs ! fst ia"
  by (auto simp: set_zip)

lemma engine_inv_initial: "heap_ok h \<Longrightarrow> engine_inv h nodes h None"
  by (simp add: engine_inv_def)

lemma applyControlAfterGenerate_inv:
  assumes ok: "heap_ok h" and arr: "node_arrays h nodes = Some refs"
    and valid: "\<forall>a \<in> set refs. node_objects h a \<noteq> None"
  shows "engine_inv h nodes (store (final (applyControlAfterGenerate E h nodes S mode X k)))
           (nextNodes (final (applyControlAfterGenerate E h nodes S mode X k)))"
proof -
  have refs: "array_at h nodes = refs" using arr by (simp add: array_at_def)
  show ?thesis
    unfolding applyControlAfterGenerate_def Let_def refs
    using visit_nodes_inv[OF ok arr valid zip_index_refs, of
        "\<lparr>store = h, nextNodes = None, executedControls = X, draws = k\<rparr>" E S mode]
      engine_inv_initial[OF ok, of nodes]
    by simp
qed








text \<open>
  C7: the engine changes no object that exists when it is called, neither a node nor an
  array of nodes. When nothing is written it returns the input array itself, leaves the
  store as it is and reports no mutation. Otherwise it reports a mutation and returns a
  new array, at an address that was unused, of the same length as the input array, in
  which at least one element is new; each element is either the reference of the input
  array at that index or the address of a new object, which is the input node at that
  index with other widget values. An element differs from the input reference exactly
  when the widget values of the node it refers to differ from those of the input node.
\<close>

theorem applyControlAfterGenerate_copies_on_write:
  assumes "r = applyControlAfterGenerate E h nodes S mode X k"
    and "heap_ok h" and "node_arrays h nodes = Some refs"
    and "\<forall>a \<in> set refs. node_objects h a \<noteq> None"
  shows
    "(\<forall>a. node_objects h a \<noteq> None \<longrightarrow> node_objects (store (final r)) a = node_objects h a)
     \<and> (\<forall>a. node_arrays h a \<noteq> None \<longrightarrow> node_arrays (store (final r)) a = node_arrays h a)
     \<and> (\<not> didMutate r \<longrightarrow> result_nodes r = nodes \<and> store (final r) = h)
     \<and> (didMutate r \<longrightarrow>
          node_arrays h (result_nodes r) = None
          \<and> (\<exists>refs'. node_arrays (store (final r)) (result_nodes r) = Some refs'
                \<and> length refs' = length refs
                \<and> (\<exists>i < length refs. refs' ! i \<noteq> refs ! i)
                \<and> (\<forall>i < length refs.
                      refs' ! i = refs ! i
                      \<or> (node_objects h (refs' ! i) = None
                          \<and> (\<exists>n n'. node_objects h (refs ! i) = Some n
                                \<and> node_objects (store (final r)) (refs' ! i) = Some n'
                                \<and> n' = n\<lparr>widgetValues := widgetValues n'\<rparr>
                                \<and> widgetValues n' \<noteq> widgetValues n)))
                \<and> (\<forall>i < length refs.
                      (refs' ! i \<noteq> refs ! i) =
                      (map_option widgetValues (node_objects (store (final r)) (refs' ! i))
                         \<noteq> map_option widgetValues (node_objects h (refs ! i))))))"
proof -
  let ?h' = "store (final r)"
  have inv: "engine_inv h nodes ?h' (nextNodes (final r))"
    unfolding assms(1) by (rule applyControlAfterGenerate_inv[OF assms(2) assms(3) assms(4)])
  have refs: "array_at h nodes = refs" using assms(3) by (simp add: array_at_def)
  have dm: "didMutate r = (nextNodes (final r) \<noteq> None)"
    and rn: "result_nodes r = (case nextNodes (final r) of None \<Rightarrow> nodes | Some arr \<Rightarrow> arr)"
    unfolding assms(1) by (simp_all add: applyControlAfterGenerate_def Let_def)
  have frame: "\<And>a. a < next_address h \<Longrightarrow> node_objects ?h' a = node_objects h a
                        \<and> node_arrays ?h' a = node_arrays h a"
    using inv by (simp add: engine_inv_def)
  have below: "\<And>a. node_objects h a \<noteq> None \<Longrightarrow> a < next_address h"
    "\<And>a. node_arrays h a \<noteq> None \<Longrightarrow> a < next_address h"
    using assms(2) by (auto simp: heap_ok_def)
  have above: "\<And>a. next_address h \<le> a \<Longrightarrow> node_objects h a = None \<and> node_arrays h a = None"
    using below by (metis not_le)
  have 1: "\<forall>a. node_objects h a \<noteq> None \<longrightarrow> node_objects ?h' a = node_objects h a"
    using frame below(1) by blast
  have 2: "\<forall>a. node_arrays h a \<noteq> None \<longrightarrow> node_arrays ?h' a = node_arrays h a"
    using frame below(2) by blast
  have 3: "\<not> didMutate r \<longrightarrow> result_nodes r = nodes \<and> ?h' = h"
    using inv dm rn by (auto simp: engine_inv_def)
  have 4: "didMutate r \<longrightarrow>
          node_arrays h (result_nodes r) = None
          \<and> (\<exists>refs'. node_arrays ?h' (result_nodes r) = Some refs'
                \<and> length refs' = length refs
                \<and> (\<exists>i < length refs. refs' ! i \<noteq> refs ! i)
                \<and> (\<forall>i < length refs.
                      refs' ! i = refs ! i
                      \<or> (node_objects h (refs' ! i) = None
                          \<and> (\<exists>n n'. node_objects h (refs ! i) = Some n
                                \<and> node_objects ?h' (refs' ! i) = Some n'
                                \<and> n' = n\<lparr>widgetValues := widgetValues n'\<rparr>
                                \<and> widgetValues n' \<noteq> widgetValues n)))
                \<and> (\<forall>i < length refs.
                      (refs' ! i \<noteq> refs ! i) =
                      (map_option widgetValues (node_objects ?h' (refs' ! i))
                         \<noteq> map_option widgetValues (node_objects h (refs ! i)))))"
  proof
    assume "didMutate r"
    then obtain arr where arr: "nextNodes (final r) = Some arr" using dm by auto
    then obtain refs' where a1: "next_address h \<le> arr" and a2: "node_arrays ?h' arr = Some refs'"
      and a3: "replaced_ok h ?h' refs refs'"
      using inv refs by (auto simp: engine_inv_def)
    have res: "result_nodes r = arr" using rn arr by simp
    have len: "length refs' = length refs" using a3 by (simp add: replaced_ok_def)
    have valid: "\<And>i. i < length refs \<Longrightarrow> refs ! i < next_address h"
      using assms(4) below(1) by simp
    have each: "\<And>i. i < length refs \<Longrightarrow>
            refs' ! i = refs ! i
            \<or> (next_address h \<le> refs' ! i
                \<and> (\<exists>n n'. node_objects h (refs ! i) = Some n
                      \<and> node_objects ?h' (refs' ! i) = Some n'
                      \<and> n' = n\<lparr>widgetValues := widgetValues n'\<rparr>
                      \<and> widgetValues n' \<noteq> widgetValues n))"
      using a3 by (simp add: replaced_ok_def)
    obtain j where j: "j < length refs" "next_address h \<le> refs' ! j"
      using a3 by (auto simp: replaced_ok_def)
    have ex: "\<exists>i < length refs. refs' ! i \<noteq> refs ! i"
      using j valid[OF j(1)] by (intro exI[of _ j]) simp
    have c1: "\<forall>i < length refs.
                      refs' ! i = refs ! i
                      \<or> (node_objects h (refs' ! i) = None
                          \<and> (\<exists>n n'. node_objects h (refs ! i) = Some n
                                \<and> node_objects ?h' (refs' ! i) = Some n'
                                \<and> n' = n\<lparr>widgetValues := widgetValues n'\<rparr>
                                \<and> widgetValues n' \<noteq> widgetValues n))"
      using each above by blast
    have c2: "\<forall>i < length refs.
                      (refs' ! i \<noteq> refs ! i) =
                      (map_option widgetValues (node_objects ?h' (refs' ! i))
                         \<noteq> map_option widgetValues (node_objects h (refs ! i)))"
    proof (intro allI impI)
      fix i assume i: "i < length refs"
      show "(refs' ! i \<noteq> refs ! i) =
                      (map_option widgetValues (node_objects ?h' (refs' ! i))
                         \<noteq> map_option widgetValues (node_objects h (refs ! i)))"
      proof (cases "refs' ! i = refs ! i")
        case True
        then show ?thesis using frame[OF valid[OF i]] by simp
      next
        case False
        then obtain n n' where "node_objects h (refs ! i) = Some n"
            "node_objects ?h' (refs' ! i) = Some n'" "widgetValues n' \<noteq> widgetValues n"
          using each[OF i] by blast
        then show ?thesis using False by simp
      qed
    qed
    show "node_arrays h (result_nodes r) = None
          \<and> (\<exists>refs'. node_arrays ?h' (result_nodes r) = Some refs'
                \<and> length refs' = length refs
                \<and> (\<exists>i < length refs. refs' ! i \<noteq> refs ! i)
                \<and> (\<forall>i < length refs.
                      refs' ! i = refs ! i
                      \<or> (node_objects h (refs' ! i) = None
                          \<and> (\<exists>n n'. node_objects h (refs ! i) = Some n
                                \<and> node_objects ?h' (refs' ! i) = Some n'
                                \<and> n' = n\<lparr>widgetValues := widgetValues n'\<rparr>
                                \<and> widgetValues n' \<noteq> widgetValues n)))
                \<and> (\<forall>i < length refs.
                      (refs' ! i \<noteq> refs ! i) =
                      (map_option widgetValues (node_objects ?h' (refs' ! i))
                         \<noteq> map_option widgetValues (node_objects h (refs ! i)))))"
      unfolding res using above[OF a1] a2 len ex c1 c2 by blast
  qed
  show ?thesis by (intro conjI 1 2 3 4)
qed

theorem applyControlAfterGenerate_copies_on_write_witness:
  "heap_ok ex_heap \<and> node_arrays ex_heap 2 = Some [0, 1]
   \<and> node_objects ex_heap 0 \<noteq> None \<and> node_objects ex_heap 1 \<noteq> None
   \<and> didMutate (applyControlAfterGenerate ex_env ex_heap 2 ex_schemas After None 0)
   \<and> result_nodes (applyControlAfterGenerate ex_env ex_heap 2 ex_schemas After None 0) = 4
   \<and> node_arrays ex_heap 4 = None
   \<and> node_arrays (store (final (applyControlAfterGenerate ex_env ex_heap 2 ex_schemas After None 0))) 4
        = Some [0, 3]
   \<and> node_arrays (store (final (applyControlAfterGenerate ex_env ex_heap 2 ex_schemas After None 0))) 2
        = node_arrays ex_heap 2
   \<and> node_objects (store (final (applyControlAfterGenerate ex_env ex_heap 2 ex_schemas After None 0))) 1
        = node_objects ex_heap 1
   \<and> map_option (\<lambda>n. widgetValues n ''seed'')
        (node_objects (store (final (applyControlAfterGenerate ex_env ex_heap 2 ex_schemas After None 0))) 3)
        = Some (Some (Num (Fin 7)))
   \<and> \<not> didMutate (applyControlAfterGenerate ex_env ex_heap 2 ex_schemas Before (Some {}) 0)
   \<and> result_nodes (applyControlAfterGenerate ex_env ex_heap 2 ex_schemas Before (Some {}) 0) = 2
   \<and> store (final (applyControlAfterGenerate ex_env ex_heap 2 ex_schemas Before (Some {}) 0)) = ex_heap"
proof -
  have h: "heap_ok ex_heap" "node_arrays ex_heap 2 = Some [0, 1]"
    "\<forall>a \<in> set [0, 1]. node_objects ex_heap a \<noteq> None"
    by (simp_all add: heap_ok_def ex_heap_def)
  have n: "node_arrays ex_heap 2 \<noteq> None" "node_objects ex_heap 1 \<noteq> None"
    by (simp_all add: ex_heap_def)
  have e: "didMutate (applyControlAfterGenerate ex_env ex_heap 2 ex_schemas After None 0)"
    "result_nodes (applyControlAfterGenerate ex_env ex_heap 2 ex_schemas After None 0) = 4"
    "node_arrays (store (final (applyControlAfterGenerate ex_env ex_heap 2 ex_schemas After None 0))) 4
        = Some [0, 3]"
    "map_option (\<lambda>n. widgetValues n ''seed'')
        (node_objects (store (final (applyControlAfterGenerate ex_env ex_heap 2 ex_schemas After None 0))) 3)
        = Some (Some (Num (Fin 7)))"
    "\<not> didMutate (applyControlAfterGenerate ex_env ex_heap 2 ex_schemas Before (Some {}) 0)"
    by code_simp+
  note A = applyControlAfterGenerate_copies_on_write[OF refl h, of ex_env ex_schemas After None 0]
  note B = applyControlAfterGenerate_copies_on_write[OF refl h, of ex_env ex_schemas Before "Some {}" 0]
  have a1: "node_objects (store (final (applyControlAfterGenerate ex_env ex_heap 2 ex_schemas After None 0))) 1
        = node_objects ex_heap 1"
    using A[THEN conjunct1, THEN spec, of 1] n(2) by simp
  have a2: "node_arrays (store (final (applyControlAfterGenerate ex_env ex_heap 2 ex_schemas After None 0))) 2
        = node_arrays ex_heap 2"
    using A[THEN conjunct2, THEN conjunct1, THEN spec, of 2] n(1) by simp
  have a3: "node_arrays ex_heap 4 = None"
    using A[THEN conjunct2, THEN conjunct2, THEN conjunct2, THEN mp, OF e(1), THEN conjunct1] e(2)
    by simp
  have b: "result_nodes (applyControlAfterGenerate ex_env ex_heap 2 ex_schemas Before (Some {}) 0) = 2
     \<and> store (final (applyControlAfterGenerate ex_env ex_heap 2 ex_schemas Before (Some {}) 0)) = ex_heap"
    using B[THEN conjunct2, THEN conjunct2, THEN conjunct1] e(5) by simp
  have v: "node_objects ex_heap 0 \<noteq> None" "node_objects ex_heap 1 \<noteq> None"
    by (simp_all add: ex_heap_def)
  show ?thesis
    by (intro conjI h(1) h(2) v e a1 a2 a3 b[THEN conjunct1] b[THEN conjunct2])
qed

end
